theory Spec2Isabelle
  imports Main "HOL-Library.Word" "HOL-Library.Multiset" "HOL-Library.List_Lexorder"
    "HOL-Library.Char_ord"
begin

section \<open>The ordered map: \<open>CompleteBTree\<close> (complete\_database.h, lines 120--383)\<close>

text \<open>
  A \<open>std::shared_ptr<BTreeNode>\<close> is either null or points to a node holding the leaf flag,
  the vector of key/value pairs and the vector of child pointers. Every node is made by
  \<open>make_shared\<close> and is referenced from exactly one place (\<open>split_child\<close> copies the
  upper child pointers into the new node and then truncates the old vector), so the pointer
  structure is a tree and is modelled by value. \<open>Null\<close> is the null pointer.
  Keys are compared with the operators of \<open>K\<close>, here a linear order.
\<close>

datatype ('k, 'v) BTreeNode =
    Null
  | BTreeNode (is_leaf: bool) (keys: "('k \<times> 'v) list") (children: "('k, 'v) BTreeNode list")

definition ORDER :: nat where
  "ORDER = 3"

definition MIN_KEYS :: nat where
  "MIN_KEYS = ORDER - 1"

definition MAX_KEYS :: nat where
  "MAX_KEYS = 2 * ORDER - 1"

text \<open>\<open>BTreeNode::find_key_position\<close>: the first index whose key is not below \<open>key\<close>.\<close>

fun find_key_position :: "'k::linorder \<Rightarrow> ('k \<times> 'v) list \<Rightarrow> nat" where
  "find_key_position key [] = 0"
| "find_key_position key (kv # rest) =
     (if key \<le> fst kv then 0 else Suc (find_key_position key rest))"

text \<open>\<open>BTreeNode::insert_key\<close>: overwrite the value at the found position when the key
  there is equal, otherwise insert the pair at that position.\<close>

definition insert_key :: "'k::linorder \<Rightarrow> 'v \<Rightarrow> ('k \<times> 'v) list \<Rightarrow> ('k \<times> 'v) list" where
  "insert_key key val ks =
     (let pos = find_key_position key ks in
      if pos < length ks \<and> fst (ks ! pos) = key
      then ks[pos := (fst (ks ! pos), val)]
      else take pos ks @ [(key, val)] @ drop pos ks)"

text \<open>\<open>std::vector::resize\<close> on a vector of child pointers: truncate, or pad with null
  pointers.\<close>

definition resize_children :: "nat \<Rightarrow> ('k, 'v) BTreeNode list \<Rightarrow> ('k, 'v) BTreeNode list" where
  "resize_children n cs = take n cs @ replicate (n - length cs) Null"

text \<open>
  \<open>split_child(parent, child_index)\<close>. The result is the parent after the call. \<open>None\<close>
  stands for the behaviour the language leaves undefined: indexing \<open>parent->children\<close> or
  \<open>child->keys\<close> out of range, or dereferencing a null child.
\<close>

fun split_child :: "('k::linorder, 'v) BTreeNode \<Rightarrow> nat \<Rightarrow> ('k, 'v) BTreeNode option" where
  "split_child Null child_index = None"
| "split_child (BTreeNode pleaf pkeys pchildren) child_index =
     (if child_index < length pchildren then
        (case pchildren ! child_index of
           Null \<Rightarrow> None
         | BTreeNode cleaf ckeys cchildren \<Rightarrow>
             if MIN_KEYS < length ckeys then
               let mid_index = MIN_KEYS;
                   mid_key = ckeys ! mid_index;
                   new_child = BTreeNode cleaf (drop (mid_index + 1) ckeys)
                                 (if cleaf then [] else drop (mid_index + 1) cchildren);
                   child = BTreeNode cleaf (take mid_index ckeys)
                             (if cleaf then cchildren
                              else resize_children (mid_index + 1) cchildren);
                   pchildren1 = pchildren[child_index := child]
               in Some (BTreeNode pleaf (insert_key (fst mid_key) (snd mid_key) pkeys)
                          (take (child_index + 1) pchildren1 @ [new_child]
                             @ drop (child_index + 1) pchildren1))
             else None)
      else None)"

text \<open>
  The index loop of \<open>insert_non_full\<close> (lines 194--198): \<open>i\<close> starts at
  \<open>keys.size() - 1\<close> and is decremented while \<open>key < keys[i].first\<close>, then incremented once.
  The argument of \<open>descend_scan\<close> is \<open>i + 1\<close>, which is never negative, and so is its result.
\<close>

fun descend_scan :: "'k::linorder \<Rightarrow> ('k \<times> 'v) list \<Rightarrow> nat \<Rightarrow> nat" where
  "descend_scan key ks 0 = 0"
| "descend_scan key ks (Suc i) = (if key < fst (ks ! i) then descend_scan key ks i else Suc i)"

text \<open>
  Lines 194--206 of \<open>insert_non_full\<close>, for an internal node: compute the child index, split
  that child when it holds \<open>MAX_KEYS\<close> keys, and step right when the key is above the key now
  at that index. The result is the node after the possible split and the index of the child
  that line 209 descends into. \<open>None\<close> is undefined behaviour (a null child, or
  \<open>node->keys[i]\<close> out of range after the split).
\<close>

definition choose_child ::
  "('k::linorder, 'v) BTreeNode \<Rightarrow> 'k \<Rightarrow> (('k, 'v) BTreeNode \<times> nat) option" where
  "choose_child node key =
     (case node of
        Null \<Rightarrow> None
      | BTreeNode leaf ks cs \<Rightarrow>
          let i = descend_scan key ks (length ks) in
          if i < length cs then
            (case cs ! i of
               Null \<Rightarrow> None
             | BTreeNode cleaf ckeys cchildren \<Rightarrow>
                 if length ckeys = MAX_KEYS then
                   (case split_child node i of
                      None \<Rightarrow> None
                    | Some Null \<Rightarrow> None
                    | Some (BTreeNode leaf1 ks1 cs1) \<Rightarrow>
                        if i < length ks1
                        then Some (BTreeNode leaf1 ks1 cs1,
                                   if fst (ks1 ! i) < key then i + 1 else i)
                        else None)
                 else Some (node, i))
          else Some (node, i))"

text \<open>The measure under which the recursive functions on nodes terminate.\<close>

fun weight :: "('k, 'v) BTreeNode \<Rightarrow> nat" where
  "weight Null = 0"
| "weight (BTreeNode leaf ks cs) = Suc (length ks + sum_list (map weight cs))"

lemma weight_nth_le: "i < length cs \<Longrightarrow> weight (cs ! i) \<le> sum_list (map weight cs)"
proof (induction cs arbitrary: i)
  case Nil
  then show ?case by simp
next
  case (Cons c cs)
  then show ?case by (cases i) (auto simp: le_SucI trans_le_add2)
qed

lemma sum_weight_take: "sum_list (map weight (take n cs)) \<le> sum_list (map weight cs)"
proof -
  have "sum_list (map weight cs)
          = sum_list (map weight (take n cs)) + sum_list (map weight (drop n cs))"
    by (simp flip: sum_list.append map_append)
  then show ?thesis by simp
qed

lemma sum_weight_drop: "sum_list (map weight (drop n cs)) \<le> sum_list (map weight cs)"
proof -
  have "sum_list (map weight cs)
          = sum_list (map weight (take n cs)) + sum_list (map weight (drop n cs))"
    by (simp flip: sum_list.append map_append)
  then show ?thesis by simp
qed

lemma sum_weight_resize:
  "sum_list (map weight (resize_children n cs)) \<le> sum_list (map weight cs)"
  using sum_weight_take [of n cs] by (simp add: resize_children_def sum_list_replicate)

lemma split_child_pieces:
  assumes "split_child (BTreeNode l ks cs) i = Some (BTreeNode l1 ks1 cs1)"
  shows "i < length cs \<and> Suc i < length cs1
         \<and> weight (cs1 ! i) < weight (cs ! i) \<and> weight (cs1 ! Suc i) < weight (cs ! i)"
proof (cases "i < length cs")
  case False
  with assms show ?thesis by simp
next
  case True
  show ?thesis
  proof (cases "cs ! i")
    case Null
    with assms True show ?thesis by simp
  next
    case (BTreeNode cl cks ccs)
    show ?thesis
    proof (cases "MIN_KEYS < length cks")
      case False
      with assms True BTreeNode show ?thesis by simp
    next
      case big: True
      have r: "sum_list (map weight (resize_children (Suc MIN_KEYS) ccs))
                 \<le> sum_list (map weight ccs)"
        by (rule sum_weight_resize)
      have d: "sum_list (map weight (drop (Suc MIN_KEYS) ccs)) \<le> sum_list (map weight ccs)"
        by (rule sum_weight_drop)
      from assms True BTreeNode big r d show ?thesis
        by (auto simp: Let_def nth_append min_def)
    qed
  qed
qed

lemma choose_child_weight:
  assumes "choose_child node key = Some (BTreeNode l1 ks1 cs1, i)" and "i < length cs1"
  shows "weight (cs1 ! i) < weight node"
proof (cases node)
  case Null
  with assms show ?thesis by (simp add: choose_child_def)
next
  case (BTreeNode l ks cs)
  define j where "j = descend_scan key ks (length ks)"
  show ?thesis
  proof (cases "j < length cs")
    case False
    with assms BTreeNode j_def show ?thesis
      by (auto simp: choose_child_def Let_def)
  next
    case True
    then have w: "weight (cs ! j) < weight node"
      using weight_nth_le [of j cs] BTreeNode by simp
    show ?thesis
    proof (cases "cs ! j")
      case Null
      with assms BTreeNode j_def True show ?thesis
        by (auto simp: choose_child_def Let_def)
    next
      case child: (BTreeNode cl cks ccs)
      show ?thesis
      proof (cases "length cks = MAX_KEYS")
        case False
        with assms BTreeNode j_def True child w show ?thesis
          by (auto simp: choose_child_def Let_def)
      next
        case full: True
        from assms BTreeNode j_def True child full
        have sp: "split_child (BTreeNode l ks cs) j = Some (BTreeNode l1 ks1 cs1)"
          and ij: "i = j \<or> i = Suc j"
          by (auto simp: choose_child_def Let_def
                   split: option.splits BTreeNode.splits if_splits)
        from split_child_pieces [OF sp] ij w show ?thesis by auto
      qed
    qed
  qed
qed

text \<open>
  \<open>insert_non_full(node, key, value)\<close>; the result is the node after the call. A leaf takes
  the pair by \<open>insert_key\<close>; an internal node chooses the child (\<open>choose_child\<close>) and
  recurses when the index is within \<open>children\<close> (line 208), and is left as it is otherwise.
\<close>

function insert_non_full ::
  "('k::linorder, 'v) BTreeNode \<Rightarrow> 'k \<Rightarrow> 'v \<Rightarrow> ('k, 'v) BTreeNode option" where
  "insert_non_full Null key val = None"
| "insert_non_full (BTreeNode leaf ks cs) key val =
     (if leaf then Some (BTreeNode leaf (insert_key key val ks) cs)
      else
        (case choose_child (BTreeNode leaf ks cs) key of
           None \<Rightarrow> None
         | Some (Null, i) \<Rightarrow> None
         | Some (BTreeNode leaf1 ks1 cs1, i) \<Rightarrow>
             if i < length cs1 then
               (case insert_non_full (cs1 ! i) key val of
                  None \<Rightarrow> None
                | Some c \<Rightarrow> Some (BTreeNode leaf1 ks1 (cs1[i := c])))
             else Some (BTreeNode leaf1 ks1 cs1)))"
  by pat_completeness auto
termination
  by (relation "measure (\<lambda>(n, k, v). weight n)") (auto dest: choose_child_weight)

text \<open>
  A \<open>CompleteBTree\<close> object is its \<open>root\<close> pointer (the three constants are fixed); the
  constructor makes an empty leaf.
\<close>

definition CompleteBTree :: "('k, 'v) BTreeNode" where
  "CompleteBTree = BTreeNode True [] []"

text \<open>\<open>CompleteBTree::insert\<close>: a full root is first put under a new internal root and
  split. The result is the new root.\<close>

definition insert_tree ::
  "('k::linorder, 'v) BTreeNode \<Rightarrow> 'k \<Rightarrow> 'v \<Rightarrow> ('k, 'v) BTreeNode option" where
  "insert_tree root key val =
     (case root of
        Null \<Rightarrow> None
      | BTreeNode leaf ks cs \<Rightarrow>
          if length ks = MAX_KEYS then
            (case split_child (BTreeNode False [] [root]) 0 of
               None \<Rightarrow> None
             | Some new_root \<Rightarrow> insert_non_full new_root key val)
          else insert_non_full root key val)"

text \<open>The scan of \<open>search_node\<close> (lines 216--219): advance while \<open>key > keys[i].first\<close>.\<close>

fun search_pos :: "'k::linorder \<Rightarrow> ('k \<times> 'v) list \<Rightarrow> nat" where
  "search_pos key [] = 0"
| "search_pos key (kv # rest) = (if key > fst kv then Suc (search_pos key rest) else 0)"

text \<open>\<open>search_node\<close>: \<open>Some v\<close> is the result \<open>true\<close> with \<open>value = v\<close>, \<open>None\<close> is
  \<open>false\<close>.\<close>

function search_node :: "('k::linorder, 'v) BTreeNode \<Rightarrow> 'k \<Rightarrow> 'v option" where
  "search_node Null key = None"
| "search_node (BTreeNode leaf ks cs) key =
     (let i = search_pos key ks in
      if i < length ks \<and> key = fst (ks ! i) then Some (snd (ks ! i))
      else if leaf then None
      else if i < length cs then search_node (cs ! i) key
      else None)"
  by pat_completeness auto
termination
  by (relation "measure (\<lambda>(n, k). weight n)")
     (auto simp: less_Suc_eq_le intro: trans_le_add2 weight_nth_le)

text \<open>\<open>CompleteBTree::search\<close>: \<open>None\<close> is the exception "Key not found in B-Tree".\<close>

definition search :: "('k::linorder, 'v) BTreeNode \<Rightarrow> 'k \<Rightarrow> 'v option" where
  "search root key = search_node root key"

definition exists_key :: "('k::linorder, 'v) BTreeNode \<Rightarrow> 'k \<Rightarrow> bool" where
  "exists_key root key = (search_node root key \<noteq> None)"

text \<open>The closure \<open>traverse\<close> of \<open>get_all_keys\<close> (lines 265--278); the result is what
  one call appends to \<open>keys\<close>.\<close>

function traverse :: "('k, 'v) BTreeNode \<Rightarrow> 'k list" where
  "traverse Null = []"
| "traverse (BTreeNode leaf ks cs) =
     concat (map (\<lambda>i. (if \<not> leaf \<and> i < length cs then traverse (cs ! i) else [])
                       @ [fst (ks ! i)])
                 [0..<length ks])
     @ (if \<not> leaf \<and> length ks < length cs then traverse (cs ! length ks) else [])"
  by pat_completeness auto
termination
  by (relation "measure weight")
     (auto simp: less_Suc_eq_le intro: trans_le_add2 weight_nth_le)

definition get_all_keys :: "('k, 'v) BTreeNode \<Rightarrow> 'k list" where
  "get_all_keys root = traverse root"

definition get_size :: "('k, 'v) BTreeNode \<Rightarrow> nat" where
  "get_size root = length (get_all_keys root)"

text \<open>The closure \<open>traverse_range\<close> of \<open>range_query\<close> (lines 303--318): the node's own
  pairs first, then every child of an internal node.\<close>

fun traverse_range :: "'k::linorder \<Rightarrow> 'k \<Rightarrow> ('k, 'v) BTreeNode \<Rightarrow> 'v list" where
  "traverse_range start end Null = []"
| "traverse_range start end (BTreeNode leaf ks cs) =
     map snd (filter (\<lambda>kv. fst kv \<ge> start \<and> fst kv \<le> end) ks)
     @ (if \<not> leaf then concat (map (traverse_range start end) cs) else [])"

definition range_query :: "('k::linorder, 'v) BTreeNode \<Rightarrow> 'k \<Rightarrow> 'k \<Rightarrow> 'v list" where
  "range_query root start end = traverse_range start end root"

text \<open>A sequence of \<open>insert\<close> calls, oldest first, applied to a tree.\<close>

fun insert_all ::
  "('k::linorder \<times> 'v) list \<Rightarrow> ('k, 'v) BTreeNode \<Rightarrow> ('k, 'v) BTreeNode option" where
  "insert_all [] t = Some t"
| "insert_all (kv # rest) t =
     (case insert_tree t (fst kv) (snd kv) of
        None \<Rightarrow> None
      | Some t1 \<Rightarrow> insert_all rest t1)"

text \<open>The nodes of a tree: the node itself and the nodes below it.\<close>

fun all_nodes :: "('k, 'v) BTreeNode \<Rightarrow> ('k, 'v) BTreeNode list" where
  "all_nodes Null = []"
| "all_nodes (BTreeNode leaf ks cs) = BTreeNode leaf ks cs # concat (map all_nodes cs)"

text \<open>Every node of the tree holds between \<open>lo\<close> and \<open>hi\<close> keys.\<close>

definition every_node_within :: "nat \<Rightarrow> nat \<Rightarrow> ('k, 'v) BTreeNode \<Rightarrow> bool" where
  "every_node_within lo hi t =
     list_all (\<lambda>n. lo \<le> length (keys n) \<and> length (keys n) \<le> hi) (all_nodes t)"

text \<open>
  The calls of \<open>insert_non_full\<close> that one \<open>insert(key, _)\<close> makes, as the list of the nodes
  they are called on, each in its state at the time of the call: \<open>descent\<close> follows the
  recursion of \<open>insert_non_full\<close>, and \<open>insert_path\<close> starts it the way \<open>insert\<close> does.
\<close>

function descent :: "('k::linorder, 'v) BTreeNode \<Rightarrow> 'k \<Rightarrow> ('k, 'v) BTreeNode list" where
  "descent Null key = [Null]"
| "descent (BTreeNode leaf ks cs) key =
     BTreeNode leaf ks cs #
     (if leaf then []
      else
        (case choose_child (BTreeNode leaf ks cs) key of
           None \<Rightarrow> []
         | Some (Null, i) \<Rightarrow> []
         | Some (BTreeNode leaf1 ks1 cs1, i) \<Rightarrow>
             if i < length cs1 then descent (cs1 ! i) key else []))"
  by pat_completeness auto
termination
  by (relation "measure (\<lambda>(n, k). weight n)") (auto dest: choose_child_weight)

definition insert_path :: "('k::linorder, 'v) BTreeNode \<Rightarrow> 'k \<Rightarrow> ('k, 'v) BTreeNode list" where
  "insert_path root key =
     (case root of
        Null \<Rightarrow> []
      | BTreeNode leaf ks cs \<Rightarrow>
          if length ks = MAX_KEYS then
            (case split_child (BTreeNode False [] [root]) 0 of
               None \<Rightarrow> []
             | Some new_root \<Rightarrow> descent new_root key)
          else descent root key)"

text \<open>
  The pairs that the nodes of a tree hold, a node's own pairs before those of its children,
  and the values of those whose key lies within the bounds, both ends included. A key that
  two nodes hold contributes two pairs.
\<close>

fun stored_pairs :: "('k, 'v) BTreeNode \<Rightarrow> ('k \<times> 'v) list" where
  "stored_pairs Null = []"
| "stored_pairs (BTreeNode leaf ks cs) = ks @ concat (map stored_pairs cs)"

definition brute_force_range :: "('k::linorder, 'v) BTreeNode \<Rightarrow> 'k \<Rightarrow> 'k \<Rightarrow> 'v list" where
  "brute_force_range root low high =
     map snd (filter (\<lambda>kv. low \<le> fst kv \<and> fst kv \<le> high) (stored_pairs root))"

text \<open>The trees that inserts build from the empty tree.\<close>

definition reachable :: "('k::linorder, 'v) BTreeNode \<Rightarrow> bool" where
  "reachable t = (\<exists>ops. insert_all ops CompleteBTree = Some t)"

subsection \<open>The invariant that insertion maintains\<close>

text \<open>The keys held anywhere in a subtree.\<close>

fun keys_of :: "('k, 'v) BTreeNode \<Rightarrow> 'k set" where
  "keys_of Null = {}"
| "keys_of (BTreeNode leaf ks cs) = fst ` set ks \<union> (\<Union>c \<in> set cs. keys_of c)"

text \<open>Shape: no null child, a leaf has no children, an internal node has one more child
  than keys.\<close>

fun well_formed :: "('k, 'v) BTreeNode \<Rightarrow> bool" where
  "well_formed Null = False"
| "well_formed (BTreeNode leaf ks cs) =
     ((if leaf then cs = [] else length cs = Suc (length ks)) \<and> (\<forall>c \<in> set cs. well_formed c))"

text \<open>
  Order. Within one node the keys are strictly ascending. Between a node and its subtrees the
  order is not strict: every key below child \<open>i\<close> is at least the node's keys before position
  \<open>i\<close> and at most those from position \<open>i\<close> on. (A key of an internal node can occur again
  below it, see the failing input of C1.)
\<close>

definition separated :: "('k::linorder \<times> 'v) list \<Rightarrow> ('k, 'v) BTreeNode list \<Rightarrow> bool" where
  "separated ks cs =
     (\<forall>i j. i < length cs \<longrightarrow> j < length ks \<longrightarrow>
        (\<forall>k \<in> keys_of (cs ! i).
           (j < i \<longrightarrow> fst (ks ! j) \<le> k) \<and> (i \<le> j \<longrightarrow> k \<le> fst (ks ! j))))"

fun ordered :: "('k::linorder, 'v) BTreeNode \<Rightarrow> bool" where
  "ordered Null = True"
| "ordered (BTreeNode leaf ks cs) =
     (sorted_wrt (<) (map fst ks) \<and> (\<forall>c \<in> set cs. ordered c) \<and> separated ks cs)"

text \<open>Key counts of a node that is not the root, and of all nodes below it.\<close>

fun sized :: "('k, 'v) BTreeNode \<Rightarrow> bool" where
  "sized Null = True"
| "sized (BTreeNode leaf ks cs) =
     (MIN_KEYS \<le> length ks \<and> length ks \<le> MAX_KEYS \<and> (\<forall>c \<in> set cs. sized c))"

definition tree_inv :: "('k::linorder, 'v) BTreeNode \<Rightarrow> bool" where
  "tree_inv t = (well_formed t \<and> ordered t \<and> (\<forall>c \<in> set (children t). sized c)
     \<and> length (keys t) \<le> MAX_KEYS \<and> (\<not> is_leaf t \<longrightarrow> keys t \<noteq> []))"

subsection \<open>Example trees\<close>

text \<open>Six inserts into an empty tree of string keys, which split the root once.\<close>

definition six_keys :: "(string \<times> nat) list" where
  "six_keys = [(''k1'', 10), (''k2'', 20), (''k3'', 30), (''k4'', 40), (''k5'', 50), (''k6'', 60)]"

definition six_tree :: "(string, nat) BTreeNode" where
  "six_tree = BTreeNode False [(''k3'', 30)]
                [BTreeNode True [(''k1'', 10), (''k2'', 20)] [],
                 BTreeNode True [(''k4'', 40), (''k5'', 50), (''k6'', 60)] []]"

text \<open>Eight inserts: the right leaf of the tree then holds five keys.\<close>

definition eight_keys :: "(string \<times> nat) list" where
  "eight_keys = six_keys @ [(''k7'', 70), (''k8'', 80)]"

definition eight_tree :: "(string, nat) BTreeNode" where
  "eight_tree = BTreeNode False [(''k3'', 30)]
                  [BTreeNode True [(''k1'', 10), (''k2'', 20)] [],
                   BTreeNode True [(''k4'', 40), (''k5'', 50), (''k6'', 60), (''k7'', 70),
                                   (''k8'', 80)] []]"

section \<open>The binary codec (complete\_database.h, lines 76--114)\<close>

text \<open>
  \<open>std::string\<close> is a list of bytes. \<open>size_t\<close> is taken to be 64 bits wide and stored least
  significant byte first, as on the platforms the 8-byte headers of the file format come from.
  An output stream in good state is the list of bytes written so far. An input stream is the
  list of bytes not yet read and its failure flag; no exception mask is set on the streams, so
  a short read sets the flag and raises nothing.
\<close>

type_synonym size_t = "64 word"

type_synonym ofstream = string

record ifstream =
  unread :: string
  failed :: bool

fun le_bytes :: "nat \<Rightarrow> nat \<Rightarrow> string" where
  "le_bytes 0 n = []"
| "le_bytes (Suc k) n = char_of (n mod 256) # le_bytes k (n div 256)"

fun le_value :: "string \<Rightarrow> nat" where
  "le_value [] = 0"
| "le_value (c # cs) = of_char c + 256 * le_value cs"

definition size_t_bytes :: "size_t \<Rightarrow> string" where
  "size_t_bytes w = le_bytes 8 (unat w)"

text \<open>\<open>os.write(p, n)\<close> with the \<open>n\<close> bytes at \<open>p\<close> given as a list.\<close>

definition os_write :: "ofstream \<Rightarrow> string \<Rightarrow> ofstream" where
  "os_write os bytes = os @ bytes"

text \<open>\<open>is.read(p, n)\<close>: the bytes stored at \<open>p\<close> and the stream afterwards. A stream that has
  failed stores nothing; a stream with fewer than \<open>n\<close> bytes left stores those and fails.\<close>

definition is_read :: "ifstream \<Rightarrow> nat \<Rightarrow> string \<times> ifstream" where
  "is_read is n =
     (if failed is then ([], is)
      else if n \<le> length (unread is) then (take n (unread is), is\<lparr>unread := drop n (unread is)\<rparr>)
      else (unread is, is\<lparr>unread := [], failed := True\<rparr>))"

text \<open>Reading into an uninitialised \<open>size_t\<close>. When fewer than 8 bytes arrive the variable
  keeps an indeterminate value, and using it is undefined: \<open>None\<close>.\<close>

definition read_size_t :: "ifstream \<Rightarrow> (size_t \<times> ifstream) option" where
  "read_size_t is =
     (case is_read is 8 of
        (bytes, is1) \<Rightarrow> if length bytes = 8 then Some (word_of_nat (le_value bytes), is1) else None)"

definition write_string :: "ofstream \<Rightarrow> string \<Rightarrow> ofstream" where
  "write_string os str =
     (let len = (word_of_nat (length str) :: size_t);
          os1 = os_write os (size_t_bytes len)
      in if len > 0 then os_write os1 (take (unat len) str) else os1)"

text \<open>\<open>str.resize(n)\<close>: truncate, or pad with zero bytes.\<close>

definition resize_string :: "nat \<Rightarrow> string \<Rightarrow> string" where
  "resize_string n str = take n str @ replicate (n - length str) (char_of (0 :: nat))"

text \<open>\<open>read_string(is, str)\<close>: the stream and the string after the call. The bytes that
  arrive overwrite the front of the resized string.\<close>

definition read_string :: "ifstream \<Rightarrow> string \<Rightarrow> (ifstream \<times> string) option" where
  "read_string is str =
     (case read_size_t is of
        None \<Rightarrow> None
      | Some (len, is1) \<Rightarrow>
          if len > 0 \<and> len < 1000000 then
            (let str1 = resize_string (unat len) str in
             case is_read is1 (unat len) of
               (bytes, is2) \<Rightarrow> Some (is2, bytes @ drop (length bytes) str1))
          else Some (is1, []))"

definition write_vector_string :: "ofstream \<Rightarrow> string list \<Rightarrow> ofstream" where
  "write_vector_string os vec =
     (let cnt = (word_of_nat (length vec) :: size_t);
          os1 = os_write os (size_t_bytes cnt)
      in foldl write_string os1 vec)"

text \<open>\<open>vec.resize(n)\<close>: truncate, or pad with empty strings.\<close>

definition resize_vector :: "nat \<Rightarrow> string list \<Rightarrow> string list" where
  "resize_vector n vec = take n vec @ replicate (n - length vec) []"

text \<open>The loop of \<open>read_vector_string\<close> over the elements of the resized vector.\<close>

fun read_strings :: "ifstream \<Rightarrow> string list \<Rightarrow> (ifstream \<times> string list) option" where
  "read_strings is [] = Some (is, [])"
| "read_strings is (str # rest) =
     (case read_string is str of
        None \<Rightarrow> None
      | Some (is1, str1) \<Rightarrow>
          (case read_strings is1 rest of
             None \<Rightarrow> None
           | Some (is2, rest1) \<Rightarrow> Some (is2, str1 # rest1)))"

definition read_vector_string :: "ifstream \<Rightarrow> string list \<Rightarrow> (ifstream \<times> string list) option" where
  "read_vector_string is vec =
     (case read_size_t is of
        None \<Rightarrow> None
      | Some (cnt, is1) \<Rightarrow>
          if cnt < 10000 then read_strings is1 (resize_vector (unat cnt) vec)
          else Some (is1, []))"

text \<open>An input stream opened on the given bytes.\<close>

definition opened :: "string \<Rightarrow> ifstream" where
  "opened bytes = \<lparr>unread = bytes, failed = False\<rparr>"

section \<open>The records and the orchestrator (complete\_database.h, lines 389--1074)\<close>

text \<open>
  The fields of the four entity structs. \<open>int\<close> and \<open>time_t\<close> fields are only copied and
  compared, never computed with, and are integers here; the \<open>float\<close> field is kept as its
  32-bit pattern. Field names that several structs share carry the struct's name.
\<close>

datatype ExerciseDifficulty = BEGINNER | INTERMEDIATE | ADVANCED | EXPERT

datatype ExerciseType = STRENGTH | CARDIO | FLEXIBILITY | BALANCE | CORE

record Exercise =
  exercise_id :: string
  exercise_name :: string
  exercise_type :: ExerciseType
  exercise_difficulty :: ExerciseDifficulty
  exercise_description :: string
  target_muscles :: "string list"
  calories_per_minute :: int
  prerequisites :: "string list"
  next_exercises :: "string list"
  exercise_created_at :: int

record User =
  user_id :: string
  username :: string
  email :: string
  password_hash :: string
  fitness_level :: int
  experience_points :: int
  completed_exercises :: "string list"
  achievements :: "string list"
  created_at :: int
  last_login :: int

record Quest =
  quest_id :: string
  title :: string
  quest_description :: string
  priority :: int
  quest_difficulty :: int
  required_exercises :: "string list"
  rewards :: "string list"
  deadline :: int
  completed :: bool

record WorkoutSession =
  workout_id :: string
  workout_user_id :: string
  start_time :: int
  end_time :: int
  exercises :: "string list"
  total_calories :: int
  validated :: bool
  form_score :: "32 word"

record HashTableEntry =
  entry_key :: string
  entry_value :: string

record GraphEdge =
  edge_from :: string
  edge_to :: string
  edge_weight :: int

record PriorityQueueEntry =
  quest :: Quest
  pq_priority :: int
  timestamp :: int

text \<open>The members of \<open>PersistentFitnessDatabase\<close>: the state held in memory.\<close>

record PersistentFitnessDatabase =
  exercise_btree :: "(string, Exercise) BTreeNode"
  user_btree :: "(string, User) BTreeNode"
  workout_btree :: "(string, WorkoutSession) BTreeNode"
  quest_btree :: "(string, Quest) BTreeNode"
  email_index :: "HashTableEntry list"
  graph_edges :: "GraphEdge list"
  pq_entries :: "PriorityQueueEntry list"
  data_dir :: string

text \<open>
  What an operation reads from outside the object: \<open>clock n\<close> is the value of the
  \<open>n\<close>-th call of \<open>time(nullptr)\<close> during the operation (counting from 0),
  \<open>rand_value\<close> the value of its call of \<open>rand()\<close>, which is not negative, and
  \<open>string_hash\<close> the implementation's \<open>std::hash<std::string>\<close>.
\<close>

record environment =
  clock :: "nat \<Rightarrow> int"
  rand_value :: int
  string_hash :: "string \<Rightarrow> size_t"

text \<open>
  How a call ends: it returns a value, it throws \<open>std::runtime_error\<close> with a message, or its
  behaviour is undefined (a tree operation that is \<open>None\<close>). Every operation yields the state
  in memory after the call together with its outcome. \<open>save_all_data\<close>, which ends each
  mutating operation, only reads that state and catches what it throws, so it does not appear.
\<close>

datatype 'a outcome = Returns 'a | Throws string | Undefined

text \<open>\<open>std::to_string\<close> on integers: decimal digits, with a sign for negative values.
  \<open>digits\<close> is only applied to values that are not negative.\<close>

function digits :: "int \<Rightarrow> string" where
  "digits n =
     (if n < 10 then [char_of (48 + n)] else digits (n div 10) @ [char_of (48 + n mod 10)])"
  by pat_completeness auto
termination
  by (relation "measure nat") auto

definition to_string :: "int \<Rightarrow> string" where
  "to_string i = (if i < 0 then CHR ''-'' # digits (- i) else digits i)"

text \<open>The default constructors, with the readings of the clock they take.\<close>

definition Exercise_ctor :: "int \<Rightarrow> Exercise" where
  "Exercise_ctor now =
     \<lparr>exercise_id = [], exercise_name = [], exercise_type = STRENGTH,
      exercise_difficulty = BEGINNER, exercise_description = [], target_muscles = [],
      calories_per_minute = 0, prerequisites = [], next_exercises = [],
      exercise_created_at = now\<rparr>"

definition User_ctor :: "int \<Rightarrow> int \<Rightarrow> User" where
  "User_ctor now1 now2 =
     \<lparr>user_id = [], username = [], email = [], password_hash = [], fitness_level = 1,
      experience_points = 0, completed_exercises = [], achievements = [],
      created_at = now1, last_login = now2\<rparr>"

definition Quest_ctor :: Quest where
  "Quest_ctor =
     \<lparr>quest_id = [], title = [], quest_description = [], priority = 1, quest_difficulty = 1,
      required_exercises = [], rewards = [], deadline = 0, completed = False\<rparr>"

text \<open>\<open>initialize_sample_data\<close> (lines 830--873).\<close>

definition initialize_sample_data ::
  "environment \<Rightarrow> PersistentFitnessDatabase \<Rightarrow> PersistentFitnessDatabase \<times> unit outcome" where
  "initialize_sample_data sys db =
     (let pushup = (Exercise_ctor (clock sys 0))
            \<lparr>exercise_id := ''EX001'', exercise_name := ''Push-up'', exercise_type := STRENGTH,
             exercise_difficulty := BEGINNER, calories_per_minute := 8, prerequisites := [],
             next_exercises := [''EX002'']\<rparr>;
          squat = (Exercise_ctor (clock sys 1))
            \<lparr>exercise_id := ''EX002'', exercise_name := ''Squat'', exercise_type := STRENGTH,
             exercise_difficulty := BEGINNER, calories_per_minute := 7,
             prerequisites := [''EX001'']\<rparr>;
          admin = (User_ctor (clock sys 2) (clock sys 3))
            \<lparr>user_id := ''ADMIN001'', username := ''Admin'', email := ''admin@fitnessquest.com'',
             password_hash := ''hashed_password'', fitness_level := 10\<rparr>;
          daily = Quest_ctor
            \<lparr>quest_id := ''Q001'', title := ''Daily Challenge'',
             quest_description := ''Complete basic exercises'', priority := 1,
             required_exercises := [''EX001'', ''EX002''], rewards := [''100 XP'']\<rparr>
      in case insert_tree (exercise_btree db) (exercise_id pushup) pushup of
           None \<Rightarrow> (db, Undefined)
         | Some et1 \<Rightarrow>
        (case insert_tree et1 (exercise_id squat) squat of
           None \<Rightarrow> (db, Undefined)
         | Some et2 \<Rightarrow>
        (case insert_tree (user_btree db) (user_id admin) admin of
           None \<Rightarrow> (db, Undefined)
         | Some ut \<Rightarrow>
        (case insert_tree (quest_btree db) (quest_id daily) daily of
           None \<Rightarrow> (db, Undefined)
         | Some qt \<Rightarrow>
             (db\<lparr>exercise_btree := et2, user_btree := ut, quest_btree := qt,
                 email_index := email_index db
                    @ [\<lparr>entry_key = email admin, entry_value = user_id admin\<rparr>],
                 graph_edges := graph_edges db
                    @ [\<lparr>edge_from = ''EX001'', edge_to = ''EX002'', edge_weight = 1\<rparr>],
                 pq_entries := pq_entries db
                    @ [\<lparr>quest = daily, pq_priority = priority daily,
                        timestamp = clock sys 4\<rparr>]\<rparr>,
              Returns ())))))"

text \<open>The constructor on a directory that holds none of the seven files: nothing is loaded,
  the user tree is empty, and the sample data is put in.\<close>

definition constructed_empty :: "environment \<Rightarrow> string \<Rightarrow> PersistentFitnessDatabase \<times> unit outcome" where
  "constructed_empty sys directory =
     initialize_sample_data sys
       \<lparr>exercise_btree = CompleteBTree, user_btree = CompleteBTree,
        workout_btree = CompleteBTree, quest_btree = CompleteBTree,
        email_index = [], graph_edges = [], pq_entries = [], data_dir = directory\<rparr>"

text \<open>The user record that \<open>create_user\<close> builds (lines 883--887).\<close>

definition new_user :: "environment \<Rightarrow> string \<Rightarrow> string \<Rightarrow> string \<Rightarrow> User" where
  "new_user sys uname mail password =
     (User_ctor (clock sys 0) (clock sys 1))
       \<lparr>user_id := ''USER_'' @ to_string (clock sys 2) @ ''_''
                     @ to_string (rand_value sys mod 10000),
        username := uname, email := mail,
        password_hash := to_string (uint (string_hash sys password))\<rparr>"

text \<open>\<open>create_user\<close> (lines 875--895).\<close>

definition create_user ::
  "environment \<Rightarrow> PersistentFitnessDatabase \<Rightarrow> string \<Rightarrow> string \<Rightarrow> string
     \<Rightarrow> PersistentFitnessDatabase \<times> string outcome" where
  "create_user sys db uname mail password =
     (if list_ex (\<lambda>entry. entry_key entry = mail) (email_index db)
      then (db, Throws ''Email already registered'')
      else
        let user = new_user sys uname mail password
        in case insert_tree (user_btree db) (user_id user) user of
             None \<Rightarrow> (db, Undefined)
           | Some ut \<Rightarrow>
               (db\<lparr>user_btree := ut,
                   email_index := email_index db
                      @ [\<lparr>entry_key = mail, entry_value = user_id user\<rparr>]\<rparr>,
                Returns (user_id user)))"

text \<open>\<open>get_user_by_email\<close> (lines 901--908): the first index entry with that key decides.\<close>

definition get_user_by_email :: "PersistentFitnessDatabase \<Rightarrow> string \<Rightarrow> User outcome" where
  "get_user_by_email db mail =
     (case find (\<lambda>entry. entry_key entry = mail) (email_index db) of
        Some entry \<Rightarrow>
          (case search (user_btree db) (entry_value entry) of
             Some user \<Rightarrow> Returns user
           | None \<Rightarrow> Throws ''Key not found in B-Tree'')
      | None \<Rightarrow> Throws (''User not found with email: '' @ mail))"

text \<open>
  The comparator that \<open>add_quest\<close> passes to \<open>std::sort\<close>, and what the standard promises
  of \<open>std::sort\<close> with a comparator: the result is a rearrangement of the input in which no
  later element is ordered before an earlier one. The order among elements that compare
  equal is the implementation's choice, so the sorting function is a parameter.
\<close>

definition higher_priority :: "PriorityQueueEntry \<Rightarrow> PriorityQueueEntry \<Rightarrow> bool" where
  "higher_priority a b = (pq_priority a > pq_priority b)"

definition std_sort_contract ::
  "('a \<Rightarrow> 'a \<Rightarrow> bool) \<Rightarrow> ('a list \<Rightarrow> 'a list) \<Rightarrow> bool" where
  "std_sort_contract cmp srt =
     (\<forall>xs. mset (srt xs) = mset xs \<and> sorted_wrt (\<lambda>a b. \<not> cmp b a) (srt xs))"

text \<open>\<open>add_quest\<close> (lines 961--971).\<close>

definition add_quest ::
  "(PriorityQueueEntry list \<Rightarrow> PriorityQueueEntry list) \<Rightarrow> environment
     \<Rightarrow> PersistentFitnessDatabase \<Rightarrow> Quest \<Rightarrow> PersistentFitnessDatabase \<times> unit outcome" where
  "add_quest std_sort sys db q =
     (case insert_tree (quest_btree db) (quest_id q) q of
        None \<Rightarrow> (db, Undefined)
      | Some qt \<Rightarrow>
          (db\<lparr>quest_btree := qt,
              pq_entries := std_sort (pq_entries db
                 @ [\<lparr>quest = q, pq_priority = priority q, timestamp = clock sys 0\<rparr>])\<rparr>,
           Returns ()))"

text \<open>\<open>get_next_quest\<close> (lines 973--983).\<close>

definition get_next_quest ::
  "PersistentFitnessDatabase \<Rightarrow> PersistentFitnessDatabase \<times> Quest outcome" where
  "get_next_quest db =
     (if pq_entries db = [] then (db, Throws ''No quests available'')
      else (db\<lparr>pq_entries := butlast (pq_entries db)\<rparr>,
            Returns (quest (last (pq_entries db)))))"

subsection \<open>Example states\<close>

text \<open>
  An environment whose clock stands still at one second and whose \<open>rand()\<close> returns \<open>r\<close>; the
  database constructed on an empty directory; that database after five \<open>create_user\<close> calls
  (the fifth splits the root of the user tree and leaves the id of the second user as the
  root's only key); and after its only quest was taken by \<open>get_next_quest\<close>.
\<close>

definition sys_at :: "int \<Rightarrow> environment" where
  "sys_at r = \<lparr>clock = (\<lambda>n. 1700000000), rand_value = r, string_hash = (\<lambda>s. 0)\<rparr>"

definition seeded_db :: PersistentFitnessDatabase where
  "seeded_db = fst (constructed_empty (sys_at 0) ''./fitness_data'')"

definition five_users_db :: PersistentFitnessDatabase where
  "five_users_db =
     (let db1 = fst (create_user (sys_at 1) seeded_db ''u1'' ''u1@x.org'' ''pw'');
          db2 = fst (create_user (sys_at 2) db1 ''u2'' ''u2@x.org'' ''pw'');
          db3 = fst (create_user (sys_at 3) db2 ''u3'' ''u3@x.org'' ''pw'');
          db4 = fst (create_user (sys_at 4) db3 ''u4'' ''u4@x.org'' ''pw'')
      in fst (create_user (sys_at 5) db4 ''u5'' ''u5@x.org'' ''pw''))"

definition no_quests_db :: PersistentFitnessDatabase where
  "no_quests_db = fst (get_next_quest seeded_db)"

text \<open>A quest with an id and a priority, and one sorting function that keeps the promise
  of \<open>std::sort\<close> (a stable insertion sort by descending priority).\<close>

definition quest_of :: "string \<Rightarrow> int \<Rightarrow> Quest" where
  "quest_of name p = Quest_ctor\<lparr>quest_id := name, priority := p\<rparr>"

definition sort_descending :: "PriorityQueueEntry list \<Rightarrow> PriorityQueueEntry list" where
  "sort_descending = sort_key (\<lambda>e. - pq_priority e)"

section \<open>Insertion of a key that an internal node holds\<close>

lemma six_tree_reached: "insert_all six_keys CompleteBTree = Some six_tree"
  unfolding six_keys_def six_tree_def by code_simp

text \<open>
  Claim C1, at a failing input. After \<open>k1\<close>, ..., \<open>k6\<close> the key \<open>k3\<close> is the only key of
  the internal root. \<open>insert(k3, 31)\<close> descends to the right of it and stores a second pair
  in the leaf, and \<open>search(k3)\<close> still answers with the root's pair: it returns 30, the value
  of the first insert of \<open>k3\<close>, not 31, the value of the most recent one.
\<close>

theorem C1_search_returns_older_value:
  "map_option (\<lambda>t. search t ''k3'') (insert_all (six_keys @ [(''k3'', 31)]) CompleteBTree)
     = Some (Some 30)"
  unfolding six_keys_def search_def by code_simp

text \<open>
  Claim C2, at a failing input. \<open>k3\<close> is present in the tree reached by the six inserts, and
  \<open>insert(k3, 31)\<close> on that tree changes the number of keys that \<open>get_all_keys\<close> returns
  from 6 to 7, leaves the value found for \<open>k3\<close> at 30, and the tree then holds \<open>k3\<close> twice.
\<close>

theorem C2_upsert_adds_second_entry:
  "exists_key six_tree ''k3''
   \<and> length (get_all_keys six_tree) = 6
   \<and> map_option (\<lambda>t. length (get_all_keys t)) (insert_tree six_tree ''k3'' 31) = Some 7
   \<and> map_option (\<lambda>t. search t ''k3'') (insert_tree six_tree ''k3'' 31) = Some (Some 30)
   \<and> map_option (\<lambda>t. distinct (get_all_keys t)) (insert_tree six_tree ''k3'' 31) = Some False"
  unfolding six_tree_def exists_key_def get_all_keys_def search_def by code_simp

text \<open>
  Claim C3, at a failing input. After the six inserts and \<open>insert(k3, 31)\<close>,
  \<open>get_all_keys\<close> returns \<open>k3\<close> twice in a row, so the keys are not strictly ascending.
\<close>

theorem C3_keys_not_strictly_ascending:
  "map_option get_all_keys (insert_all (six_keys @ [(''k3'', 31)]) CompleteBTree)
     = Some [''k1'', ''k2'', ''k3'', ''k3'', ''k4'', ''k5'', ''k6'']
   \<and> \<not> sorted_wrt (<) [''k1'', ''k2'', ''k3'', ''k3'', ''k4'', ''k5'', ''k6'']"
  unfolding six_keys_def get_all_keys_def by code_simp

text \<open>
  Claim C4 as stated fails at the root: after the six inserts the root holds one key, so not
  every node of the tree holds between 2 and 5 keys.
\<close>

theorem C4_root_holds_one_key:
  "insert_all six_keys CompleteBTree = Some six_tree
   \<and> length (keys six_tree) = 1
   \<and> \<not> every_node_within 2 5 six_tree"
  unfolding six_keys_def six_tree_def every_node_within_def by code_simp

section \<open>Insertion maintains the invariant\<close>

lemma find_key_position_at:
  assumes "\<forall>j<i. fst (ks ! j) < key" and "\<forall>j. i \<le> j \<longrightarrow> j < length ks \<longrightarrow> key < fst (ks ! j)"
    and "i \<le> length ks"
  shows "find_key_position key ks = i"
  using assms
proof (induction ks arbitrary: i)
  case Nil
  then show ?case by simp
next
  case (Cons x xs)
  show ?case
  proof (cases i)
    case 0
    with Cons.prems(2) [rule_format, of 0] show ?thesis by simp
  next
    case (Suc i')
    have a: "\<forall>j<i'. fst (xs ! j) < key"
      using Cons.prems(1) Suc by auto
    have b: "\<forall>j. i' \<le> j \<longrightarrow> j < length xs \<longrightarrow> key < fst (xs ! j)"
      using Cons.prems(2) Suc by auto
    have c: "fst x < key" using Cons.prems(1) Suc by auto
    have "find_key_position key xs = i'"
      using Cons.IH [OF a b] Cons.prems(3) Suc by simp
    with c Suc show ?thesis by simp
  qed
qed

lemma insert_key_at:
  assumes "\<forall>j<i. fst (ks ! j) < key" and "\<forall>j. i \<le> j \<longrightarrow> j < length ks \<longrightarrow> key < fst (ks ! j)"
    and "i \<le> length ks"
  shows "insert_key key val ks = take i ks @ [(key, val)] @ drop i ks"
proof -
  have p: "find_key_position key ks = i"
    using assms by (rule find_key_position_at)
  have "i < length ks \<Longrightarrow> fst (ks ! i) \<noteq> key"
    using assms(2) [rule_format, of i] by auto
  with p show ?thesis by (auto simp: insert_key_def)
qed

lemma descend_scan_spec:
  assumes "n \<le> length ks"
  shows "descend_scan key ks n \<le> n
       \<and> (\<forall>j. descend_scan key ks n \<le> j \<longrightarrow> j < n \<longrightarrow> key < fst (ks ! j))
       \<and> (0 < descend_scan key ks n \<longrightarrow> fst (ks ! (descend_scan key ks n - 1)) \<le> key)"
  using assms
proof (induction n)
  case 0
  then show ?case by simp
next
  case (Suc n)
  then show ?case by (auto simp: less_Suc_eq)
qed

lemma descend_scan_bounds:
  assumes "sorted_wrt (<) (map fst ks)" and i_def: "i = descend_scan key ks (length ks)"
  shows "i \<le> length ks \<and> (\<forall>j<length ks. (j < i \<longrightarrow> fst (ks ! j) \<le> key) \<and> (i \<le> j \<longrightarrow> key < fst (ks ! j)))"
proof -
  have s: "i \<le> length ks" "\<forall>j. i \<le> j \<longrightarrow> j < length ks \<longrightarrow> key < fst (ks ! j)"
     "0 < i \<longrightarrow> fst (ks ! (i - 1)) \<le> key"
    using descend_scan_spec [of "length ks" ks key] by (auto simp: i_def)
  have "fst (ks ! j) \<le> key" if "j < i" for j
  proof -
    from that s have le: "fst (ks ! (i - 1)) \<le> key" and "i - 1 < length ks" by auto
    show ?thesis
    proof (cases "j = i - 1")
      case True
      with le show ?thesis by simp
    next
      case False
      with that have "j < i - 1" by simp
      with assms(1) \<open>i - 1 < length ks\<close> have "fst (ks ! j) < fst (ks ! (i - 1))"
        by (simp add: sorted_wrt_iff_nth_less)
      with le show ?thesis by simp
    qed
  qed
  with s show ?thesis by auto
qed

lemma separated_take: "separated ks cs \<Longrightarrow> separated (take n ks) (take (Suc n) cs)"
  by (auto simp: separated_def)

lemma separated_drop:
  assumes "separated ks cs"
  shows "separated (drop n ks) (drop n cs)"
  unfolding separated_def
proof (intro allI impI ballI)
  fix i j k
  assume i: "i < length (drop n cs)" and j: "j < length (drop n ks)"
    and k: "k \<in> keys_of (drop n cs ! i)"
  have "n + i < length cs" and "n + j < length ks"
    using i j by auto
  moreover have "k \<in> keys_of (cs ! (n + i))"
    using k i by simp
  ultimately have "(n + j < n + i \<longrightarrow> fst (ks ! (n + j)) \<le> k)
      \<and> (n + i \<le> n + j \<longrightarrow> k \<le> fst (ks ! (n + j)))"
    using assms unfolding separated_def by blast
  then show "(j < i \<longrightarrow> fst (drop n ks ! j) \<le> k) \<and> (i \<le> j \<longrightarrow> k \<le> fst (drop n ks ! j))"
    using j by simp
qed

lemma nth_ins1:
  assumes "i \<le> length ks" and "j < Suc (length ks)"
  shows "(take i ks @ [x] @ drop i ks) ! j = (if j < i then ks ! j else if j = i then x else ks ! (j - 1))"
  using assms by (auto simp: nth_append min_def)

lemma nth_ins2:
  assumes "i < length cs" and "j < Suc (length cs)"
  shows "(take i cs @ [l, r] @ drop (Suc i) cs) ! j
       = (if j < i then cs ! j else if j = i then l else if j = Suc i then r else cs ! (j - 1))"
proof -
  have "Suc (j - 2) = j - 1" if "Suc i < j"
    using that by simp
  with assms show ?thesis
    by (auto simp: nth_append min_def nth_Cons')
qed

lemma separated_update:
  assumes sep: "separated ks cs" and i: "i < length cs"
    and sub: "keys_of c \<subseteq> insert key (keys_of (cs ! i))"
    and key: "\<forall>j<length ks. (j < i \<longrightarrow> fst (ks ! j) \<le> key) \<and> (i \<le> j \<longrightarrow> key \<le> fst (ks ! j))"
  shows "separated ks (cs[i := c])"
  unfolding separated_def
proof (intro allI impI ballI)
  fix a j k
  assume a: "a < length (cs[i := c])" and j: "j < length ks" and k: "k \<in> keys_of (cs[i := c] ! a)"
  show "(j < a \<longrightarrow> fst (ks ! j) \<le> k) \<and> (a \<le> j \<longrightarrow> k \<le> fst (ks ! j))"
  proof (cases "a = i")
    case True
    with k i sub have "k = key \<or> k \<in> keys_of (cs ! i)" by auto
    then show ?thesis
    proof
      assume "k = key"
      with key j True show ?thesis by simp
    next
      assume "k \<in> keys_of (cs ! i)"
      with sep i j True show ?thesis unfolding separated_def by blast
    qed
  next
    case False
    with k a have "k \<in> keys_of (cs ! a)" and "a < length cs" by auto
    with sep j show ?thesis unfolding separated_def by blast
  qed
qed

lemma separated_split:
  assumes sep: "separated ks cs" and i: "i < length cs" and len: "length cs = Suc (length ks)"
    and l: "keys_of l \<subseteq> keys_of (cs ! i)" and r: "keys_of r \<subseteq> keys_of (cs ! i)"
    and m: "fst m \<in> keys_of (cs ! i)"
    and lm: "\<forall>k \<in> keys_of l. k \<le> fst m" and mr: "\<forall>k \<in> keys_of r. fst m \<le> k"
  shows "separated (take i ks @ [m] @ drop i ks) (take i cs @ [l, r] @ drop (Suc i) cs)"
  unfolding separated_def
proof (intro allI impI ballI)
  let ?ks = "take i ks @ [m] @ drop i ks" and ?cs = "take i cs @ [l, r] @ drop (Suc i) cs"
  fix a j k
  assume a: "a < length ?cs" and j: "j < length ?ks" and k: "k \<in> keys_of (?cs ! a)"
  have orig: "(y < x \<longrightarrow> fst (ks ! y) \<le> z) \<and> (x \<le> y \<longrightarrow> z \<le> fst (ks ! y))"
    if "x < length cs" and "y < length ks" and "z \<in> keys_of (cs ! x)" for x y z
    using sep that unfolding separated_def by blast
  have ik: "i \<le> length ks" using i len by simp
  have a': "a < Suc (length cs)" using a i by simp
  have j': "j < Suc (length ks)" using j ik by simp
  have ca: "?cs ! a = (if a < i then cs ! a else if a = i then l else if a = Suc i then r else cs ! (a - 1))"
    using i a' by (rule nth_ins2)
  have kj: "?ks ! j = (if j < i then ks ! j else if j = i then m else ks ! (j - 1))"
    using ik j' by (rule nth_ins1)
  \<comment> \<open>the child of the old node that holds \<open>k\<close>\<close>
  define b where "b = (if a \<le> i then a else a - 1)"
  have b: "b < length cs" and kb: "k \<in> keys_of (cs ! b)"
    using a' i k l r ca by (auto simp: b_def split: if_splits)
  consider (left) "j < i" | (mid) "j = i" | (right) "i < j" by linarith
  then show "(j < a \<longrightarrow> fst (?ks ! j) \<le> k) \<and> (a \<le> j \<longrightarrow> k \<le> fst (?ks ! j))"
  proof cases
    case left
    then have "j < length ks" using ik by simp
    from orig [OF b this kb] left show ?thesis
      unfolding kj by (auto simp: b_def split: if_splits)
  next
    case right
    then have jl: "j - 1 < length ks" using j' by simp
    from orig [OF b jl kb] right show ?thesis
      unfolding kj by (auto simp: b_def split: if_splits)
  next
    case mid
    consider (a1) "a < i" | (a2) "a = i" | (a3) "a = Suc i" | (a4) "Suc i < a" by linarith
    then show ?thesis
    proof cases
      case a1
      then have al: "a < length ks" and "a < length cs" using ik i by simp_all
      have "k \<le> fst (ks ! a)"
        using orig [OF \<open>a < length cs\<close> al, of k] k ca a1 by simp
      also have "fst (ks ! a) \<le> fst m"
        using orig [OF i al m] a1 by simp
      finally show ?thesis using mid a1 kj by simp
    next
      case a2
      with k ca lm mid kj show ?thesis by simp
    next
      case a3
      with k ca mr mid kj show ?thesis by simp
    next
      case a4
      then have il: "i < length ks" and al: "a - 1 < length cs" using a' len by simp_all
      have "fst m \<le> fst (ks ! i)"
        using orig [OF i il m] by simp
      also have "fst (ks ! i) \<le> k"
        using orig [OF al il, of k] k ca a4 by simp
      finally show ?thesis using mid a4 kj by simp
    qed
  qed
qed

lemma key_bounds [simp]: "MIN_KEYS = 2" "MAX_KEYS = 5"
  by (simp_all add: MIN_KEYS_def MAX_KEYS_def ORDER_def)

lemma nth_keys_of: "j < length ks \<Longrightarrow> fst (ks ! j) \<in> keys_of (BTreeNode leaf ks cs)"
  by simp

lemma splice_children:
  assumes "i < length cs"
  shows "take (i + 1) (cs[i := x]) @ [y] @ drop (i + 1) (cs[i := x])
           = take i cs @ [x, y] @ drop (Suc i) cs"
  using assms by (simp add: take_Suc_conv_app_nth)

lemma split_child_full:
  assumes i: "i < length cs" and len: "length cs = Suc (length ks)"
    and sorted: "sorted_wrt (<) (map fst ks)" and sep: "separated ks cs"
    and child: "cs ! i = BTreeNode cl cks ccs"
    and wfc: "well_formed (BTreeNode cl cks ccs)"
    and sc: "sorted_wrt (<) (map fst cks)"
    and full: "length cks = MAX_KEYS"
  shows "split_child (BTreeNode pl ks cs) i
           = Some (BTreeNode pl (take i ks @ [cks ! 2] @ drop i ks)
                     (take i cs @ [BTreeNode cl (take 2 cks) (take 3 ccs),
                                   BTreeNode cl (drop 3 cks) (drop 3 ccs)] @ drop (Suc i) cs))"
    and "\<forall>j<length ks. (j < i \<longrightarrow> fst (ks ! j) < fst (cks ! 2)) \<and> (i \<le> j \<longrightarrow> fst (cks ! 2) < fst (ks ! j))"
proof -
  have l5: "length cks = 5" using full by simp
  have lo: "fst (cks ! 0) < fst (cks ! 2)" and hi: "fst (cks ! 2) < fst (cks ! 4)"
    using sc l5 by (simp_all add: sorted_wrt_iff_nth_less)
  have in0: "fst (cks ! 0) \<in> keys_of (cs ! i)" and in4: "fst (cks ! 4) \<in> keys_of (cs ! i)"
    using l5 child by simp_all
  show strict: "\<forall>j<length ks. (j < i \<longrightarrow> fst (ks ! j) < fst (cks ! 2)) \<and> (i \<le> j \<longrightarrow> fst (cks ! 2) < fst (ks ! j))"
  proof (intro allI impI)
    fix j assume j: "j < length ks"
    from sep i j in0 have a: "j < i \<longrightarrow> fst (ks ! j) \<le> fst (cks ! 0)"
      unfolding separated_def by blast
    from sep i j in4 have b: "i \<le> j \<longrightarrow> fst (cks ! 4) \<le> fst (ks ! j)"
      unfolding separated_def by blast
    from a b lo hi show "(j < i \<longrightarrow> fst (ks ! j) < fst (cks ! 2)) \<and> (i \<le> j \<longrightarrow> fst (cks ! 2) < fst (ks ! j))"
      by auto
  qed
  have ik: "i \<le> length ks" using i len by simp
  have ins: "insert_key (fst (cks ! 2)) (snd (cks ! 2)) ks = take i ks @ [cks ! 2] @ drop i ks"
    using insert_key_at [of i ks "fst (cks ! 2)" "snd (cks ! 2)"] strict ik by auto
  have left: "(if cl then ccs else resize_children 3 ccs) = take 3 ccs"
    using wfc l5 by (auto simp: resize_children_def)
  have right: "(if cl then [] else drop 3 ccs) = drop 3 ccs"
    using wfc by auto
  have "split_child (BTreeNode pl ks cs) i
          = Some (BTreeNode pl (insert_key (fst (cks ! 2)) (snd (cks ! 2)) ks)
              (take (i + 1) (cs[i := BTreeNode cl (take 2 cks)
                                       (if cl then ccs else resize_children 3 ccs)])
               @ [BTreeNode cl (drop 3 cks) (if cl then [] else drop 3 ccs)]
               @ drop (i + 1) (cs[i := BTreeNode cl (take 2 cks)
                                       (if cl then ccs else resize_children 3 ccs)])))"
    using i child l5 by (simp add: Let_def)
  then show "split_child (BTreeNode pl ks cs) i
           = Some (BTreeNode pl (take i ks @ [cks ! 2] @ drop i ks)
                     (take i cs @ [BTreeNode cl (take 2 cks) (take 3 ccs),
                                   BTreeNode cl (drop 3 cks) (drop 3 ccs)] @ drop (Suc i) cs))"
    unfolding ins left right splice_children [OF i] .
qed

lemma split_pieces:
  assumes wfc: "well_formed (BTreeNode cl cks ccs)" and oc: "ordered (BTreeNode cl cks ccs)"
    and full: "length cks = MAX_KEYS"
  defines "l \<equiv> BTreeNode cl (take 2 cks) (take 3 ccs)"
    and "r \<equiv> BTreeNode cl (drop 3 cks) (drop 3 ccs)"
  shows "well_formed l" and "well_formed r" and "ordered l" and "ordered r"
    and "keys_of l \<union> {fst (cks ! 2)} \<union> keys_of r = keys_of (BTreeNode cl cks ccs)"
    and "\<forall>k \<in> keys_of l. k \<le> fst (cks ! 2)" and "\<forall>k \<in> keys_of r. fst (cks ! 2) \<le> k"
proof -
  have l5: "length cks = 5" using full by simp
  have sc: "sorted_wrt (<) (map fst cks)" and sep: "separated cks ccs"
    and oc': "\<forall>c \<in> set ccs. ordered c"
    using oc by simp_all
  have sub1: "set (take 3 ccs) \<subseteq> set ccs" by (rule set_take_subset)
  have sub2: "set (drop 3 ccs) \<subseteq> set ccs" by (rule set_drop_subset)
  show "well_formed l"
    using wfc l5 sub1 by (auto simp: l_def)
  show "well_formed r"
    using wfc l5 sub2 by (auto simp: r_def)
  have "separated (take 2 cks) (take (Suc 2) ccs)"
    using sep by (rule separated_take)
  then have "separated (take 2 cks) (take 3 ccs)" by (simp add: eval_nat_numeral)
  then show "ordered l"
    using sc oc' sub1 by (auto simp: l_def sorted_wrt_take take_map [symmetric])
  have "separated (drop 3 cks) (drop 3 ccs)"
    using sep by (rule separated_drop)
  then show "ordered r"
    using sc oc' sub2 by (auto simp: r_def sorted_wrt_drop drop_map [symmetric])
  have cks: "cks = take 2 cks @ cks ! 2 # drop 3 cks"
    using id_take_nth_drop [of 2 cks] l5 by simp
  have "set cks = set (take 2 cks) \<union> {cks ! 2} \<union> set (drop 3 cks)"
    by (subst cks) auto
  moreover have "set ccs = set (take 3 ccs) \<union> set (drop 3 ccs)"
    using set_append [of "take 3 ccs" "drop 3 ccs"] by simp
  ultimately show "keys_of l \<union> {fst (cks ! 2)} \<union> keys_of r = keys_of (BTreeNode cl cks ccs)"
    by (auto simp: l_def r_def)
  show "\<forall>k \<in> keys_of l. k \<le> fst (cks ! 2)"
  proof
    fix k assume "k \<in> keys_of l"
    then have "k \<in> fst ` set (take 2 cks) \<or> (\<exists>c \<in> set (take 3 ccs). k \<in> keys_of c)"
      by (auto simp: l_def)
    then show "k \<le> fst (cks ! 2)"
    proof
      assume "k \<in> fst ` set (take 2 cks)"
      then obtain j where "j < length (take 2 cks)" and "k = fst (take 2 cks ! j)"
        by (auto simp: in_set_conv_nth)
      then have j: "j < 2" and k: "k = fst (cks ! j)" by simp_all
      from sc l5 j have "fst (cks ! j) < fst (cks ! 2)"
        by (simp add: sorted_wrt_iff_nth_less)
      with k show ?thesis by simp
    next
      assume "\<exists>c \<in> set (take 3 ccs). k \<in> keys_of c"
      then obtain a where "a < length (take 3 ccs)" and "k \<in> keys_of (take 3 ccs ! a)"
        by (auto simp: in_set_conv_nth)
      then have "a < length ccs" and "2 < length cks" and "k \<in> keys_of (ccs ! a)" and "a \<le> 2"
        using l5 by simp_all
      with sep show ?thesis unfolding separated_def by blast
    qed
  qed
  show "\<forall>k \<in> keys_of r. fst (cks ! 2) \<le> k"
  proof
    fix k assume "k \<in> keys_of r"
    then have "k \<in> fst ` set (drop 3 cks) \<or> (\<exists>c \<in> set (drop 3 ccs). k \<in> keys_of c)"
      by (auto simp: r_def)
    then show "fst (cks ! 2) \<le> k"
    proof
      assume "k \<in> fst ` set (drop 3 cks)"
      then obtain j where "j < length (drop 3 cks)" and "k = fst (drop 3 cks ! j)"
        by (auto simp: in_set_conv_nth)
      then have j: "3 + j < 5" and k: "k = fst (cks ! (3 + j))" using l5 by simp_all
      from sc l5 j have "fst (cks ! 2) < fst (cks ! (3 + j))"
        by (simp add: sorted_wrt_iff_nth_less)
      with k show ?thesis by simp
    next
      assume "\<exists>c \<in> set (drop 3 ccs). k \<in> keys_of c"
      then obtain a where "a < length (drop 3 ccs)" and "k \<in> keys_of (drop 3 ccs ! a)"
        by (auto simp: in_set_conv_nth)
      then have "3 + a < length ccs" and "2 < length cks" and "k \<in> keys_of (ccs ! (3 + a))"
        and "2 < 3 + a"
        using l5 by simp_all
      with sep show ?thesis unfolding separated_def by blast
    qed
  qed
qed

lemma sorted_insert_at:
  fixes ks :: "('k::linorder \<times> 'v) list"
  assumes s: "sorted_wrt (<) (map fst ks)" and i: "i \<le> length ks"
    and b: "\<forall>j<length ks. (j < i \<longrightarrow> fst (ks ! j) < fst m) \<and> (i \<le> j \<longrightarrow> fst m < fst (ks ! j))"
  shows "sorted_wrt (<) (map fst (take i ks @ [m] @ drop i ks))"
proof -
  have t: "sorted_wrt (<) (map fst (take i ks))"
    using s by (simp add: take_map [symmetric] sorted_wrt_take)
  have d: "sorted_wrt (<) (map fst (drop i ks))"
    using s by (simp add: drop_map [symmetric] sorted_wrt_drop)
  have lo: "fst x < fst m" if "x \<in> set (take i ks)" for x
  proof -
    from that obtain j where "j < length (take i ks)" and "x = take i ks ! j"
      by (auto simp: in_set_conv_nth)
    then have "j < i" and "j < length ks" and "x = ks ! j" by simp_all
    with b show ?thesis by simp
  qed
  have hi: "fst m < fst y" if "y \<in> set (drop i ks)" for y
  proof -
    from that obtain j where "j < length (drop i ks)" and "y = drop i ks ! j"
      by (auto simp: in_set_conv_nth)
    then have "i \<le> i + j" and "i + j < length ks" and "y = ks ! (i + j)" by simp_all
    with b show ?thesis by simp
  qed
  have "fst x < fst y" if "x \<in> set (take i ks)" and "y \<in> set (drop i ks)" for x y
    using lo [OF that(1)] hi [OF that(2)] by (rule less_trans)
  with t d lo hi show ?thesis
    by (auto simp: sorted_wrt_append)
qed

lemma set_splice2:
  assumes "i < length cs"
  shows "set (take i cs @ [l, r] @ drop (Suc i) cs) = set (take i cs) \<union> {l, r} \<union> set (drop (Suc i) cs)"
    and "set cs = set (take i cs) \<union> {cs ! i} \<union> set (drop (Suc i) cs)"
proof -
  show "set (take i cs @ [l, r] @ drop (Suc i) cs) = set (take i cs) \<union> {l, r} \<union> set (drop (Suc i) cs)"
    by auto
  have "cs = take i cs @ cs ! i # drop (Suc i) cs"
    using assms by (rule id_take_nth_drop)
  then have "set cs = set (take i cs @ cs ! i # drop (Suc i) cs)" by simp
  then show "set cs = set (take i cs) \<union> {cs ! i} \<union> set (drop (Suc i) cs)" by simp
qed

lemma set_splice1:
  "set (take i ks @ [m] @ drop i ks) = insert m (set ks)"
proof -
  have "set ks = set (take i ks @ drop i ks)" by simp
  then show ?thesis by (simp del: append_take_drop_id)
qed

lemma choose_child_inv:
  assumes wf: "well_formed (BTreeNode False ks cs)" and ord: "ordered (BTreeNode False ks cs)"
    and sz: "\<forall>c \<in> set cs. sized c"
  shows "\<exists>ks1 cs1 i. choose_child (BTreeNode False ks cs) key = Some (BTreeNode False ks1 cs1, i)
      \<and> i < length cs1 \<and> well_formed (BTreeNode False ks1 cs1) \<and> ordered (BTreeNode False ks1 cs1)
      \<and> (\<forall>c \<in> set cs1. sized c)
      \<and> length (keys (cs1 ! i)) < MAX_KEYS \<and> length ks \<le> length ks1 \<and> length ks1 \<le> Suc (length ks)
      \<and> keys_of (BTreeNode False ks1 cs1) = keys_of (BTreeNode False ks cs)
      \<and> (\<forall>j<length ks1. (j < i \<longrightarrow> fst (ks1 ! j) \<le> key) \<and> (i \<le> j \<longrightarrow> key \<le> fst (ks1 ! j)))"
proof -
  define i0 where "i0 = descend_scan key ks (length ks)"
  have len: "length cs = Suc (length ks)" and wfc: "\<forall>c \<in> set cs. well_formed c"
    using wf by simp_all
  have sk: "sorted_wrt (<) (map fst ks)" and oc: "\<forall>c \<in> set cs. ordered c" and sep: "separated ks cs"
    using ord by simp_all
  have i0: "i0 \<le> length ks"
    and kb: "\<forall>j<length ks. (j < i0 \<longrightarrow> fst (ks ! j) \<le> key) \<and> (i0 \<le> j \<longrightarrow> key < fst (ks ! j))"
    using descend_scan_bounds [OF sk i0_def] by simp_all
  have i0c: "i0 < length cs" using i0 len by simp
  then have mem: "cs ! i0 \<in> set cs" by simp
  with wfc obtain cl cks ccs where child: "cs ! i0 = BTreeNode cl cks ccs"
    by (cases "cs ! i0") auto
  have wfchild: "well_formed (BTreeNode cl cks ccs)" and ochild: "ordered (BTreeNode cl cks ccs)"
    and schild: "sized (BTreeNode cl cks ccs)"
    using mem wfc oc sz child by auto
  show ?thesis
  proof (cases "length cks = MAX_KEYS")
    case False
    then have cc: "choose_child (BTreeNode False ks cs) key = Some (BTreeNode False ks cs, i0)"
      using i0c child by (simp add: choose_child_def i0_def [symmetric])
    have "length (keys (cs ! i0)) < MAX_KEYS"
      using False schild child by simp
    moreover have "\<forall>j<length ks. (j < i0 \<longrightarrow> fst (ks ! j) \<le> key) \<and> (i0 \<le> j \<longrightarrow> key \<le> fst (ks ! j))"
      using kb by auto
    ultimately show ?thesis
      using cc i0c wf ord sz
      by (intro exI [of _ ks] exI [of _ cs] exI [of _ i0]) simp
  next
    case True
    define m where "m = cks ! 2"
    define l where "l = BTreeNode cl (take 2 cks) (take 3 ccs)"
    define r where "r = BTreeNode cl (drop 3 cks) (drop 3 ccs)"
    define ks1 where "ks1 = take i0 ks @ [m] @ drop i0 ks"
    define cs1 where "cs1 = take i0 cs @ [l, r] @ drop (Suc i0) cs"
    define i where "i = (if fst m < key then i0 + 1 else i0)"
    have l5: "length cks = 5" using True by simp
    have sck: "sorted_wrt (<) (map fst cks)" using ochild by simp
    have sp: "split_child (BTreeNode False ks cs) i0 = Some (BTreeNode False ks1 cs1)"
      and strict: "\<forall>j<length ks. (j < i0 \<longrightarrow> fst (ks ! j) < fst m) \<and> (i0 \<le> j \<longrightarrow> fst m < fst (ks ! j))"
      using split_child_full(1) [OF i0c len sk sep child wfchild sck True, of False]
        split_child_full(2) [OF i0c len sk sep child wfchild sck True]
      by (simp_all add: ks1_def cs1_def m_def l_def r_def)
    have pieces: "well_formed l" "well_formed r" "ordered l" "ordered r"
      "keys_of l \<union> {fst m} \<union> keys_of r = keys_of (BTreeNode cl cks ccs)"
      "\<forall>k \<in> keys_of l. k \<le> fst m" "\<forall>k \<in> keys_of r. fst m \<le> k"
      unfolding l_def r_def m_def by (fact split_pieces [OF wfchild ochild True])+
    have lk1: "length ks1 = Suc (length ks)" using i0 by (simp add: ks1_def)
    have lc1: "length cs1 = Suc (length cs)" using i0c by (simp add: cs1_def)
    have nk: "ks1 ! j = (if j < i0 then ks ! j else if j = i0 then m else ks ! (j - 1))"
      if "j < Suc (length ks)" for j
      unfolding ks1_def using i0 that by (rule nth_ins1)
    have nc: "cs1 ! j = (if j < i0 then cs ! j else if j = i0 then l else if j = Suc i0 then r else cs ! (j - 1))"
      if "j < Suc (length cs)" for j
      unfolding cs1_def using i0c that by (rule nth_ins2)
    have cc: "choose_child (BTreeNode False ks cs) key = Some (BTreeNode False ks1 cs1, i)"
      using i0c child True sp lk1 i0 nk [of i0]
      by (simp add: choose_child_def i0_def [symmetric] i_def)
    have ilt: "i < length cs1" using i0c lc1 by (simp add: i_def)
    have sets: "set cs1 = set (take i0 cs) \<union> {l, r} \<union> set (drop (Suc i0) cs)"
      "set cs = set (take i0 cs) \<union> {cs ! i0} \<union> set (drop (Suc i0) cs)"
      using set_splice2(1) [OF i0c, of l r] set_splice2(2) [OF i0c] by (simp_all add: cs1_def)
    have sub: "set cs1 \<subseteq> set cs \<union> {l, r}"
      using sets by auto
    have wf1: "well_formed (BTreeNode False ks1 cs1)"
      using lk1 lc1 len wfc pieces(1,2) sub by auto
    have sized_lr: "sized l" "sized r"
      using schild l5 set_take_subset [of 3 ccs] set_drop_subset [of 3 ccs]
      by (auto simp: l_def r_def)
    have sz1: "\<forall>c \<in> set cs1. sized c"
      using sz sized_lr sub by auto
    have "sorted_wrt (<) (map fst ks1)"
      unfolding ks1_def using sk i0 strict by (rule sorted_insert_at)
    moreover have "\<forall>c \<in> set cs1. ordered c"
      using oc pieces(3,4) sub by auto
    moreover have "separated ks1 cs1"
      unfolding ks1_def cs1_def
      using sep i0c len _ _ _ pieces(6,7)
    proof (rule separated_split)
      show "keys_of l \<subseteq> keys_of (cs ! i0)" using pieces(5) child by auto
      show "keys_of r \<subseteq> keys_of (cs ! i0)" using pieces(5) child by auto
      show "fst m \<in> keys_of (cs ! i0)" using pieces(5) child by auto
    qed
    ultimately have ord1: "ordered (BTreeNode False ks1 cs1)" by simp
    have small: "length (keys (cs1 ! i)) < MAX_KEYS"
      using nc [of i0] nc [of "Suc i0"] i0c l5 by (auto simp: i_def l_def r_def)
    have "set ks1 = insert m (set ks)"
      unfolding ks1_def by (rule set_splice1)
    then have "fst ` set ks1 = insert (fst m) (fst ` set ks)"
      by simp
    moreover have "(\<Union>c \<in> set cs1. keys_of c) \<union> {fst m} = (\<Union>c \<in> set cs. keys_of c)"
      using sets pieces(5) child by auto
    ultimately have same: "keys_of (BTreeNode False ks1 cs1) = keys_of (BTreeNode False ks cs)"
      by auto
    have bounds: "\<forall>j<length ks1. (j < i \<longrightarrow> fst (ks1 ! j) \<le> key) \<and> (i \<le> j \<longrightarrow> key \<le> fst (ks1 ! j))"
    proof (intro allI impI)
      fix j assume j: "j < length ks1"
      then have j': "j < Suc (length ks)" using lk1 by simp
      consider (a) "j < i0" | (b) "j = i0" | (c) "i0 < j" by linarith
      then show "(j < i \<longrightarrow> fst (ks1 ! j) \<le> key) \<and> (i \<le> j \<longrightarrow> key \<le> fst (ks1 ! j))"
      proof cases
        case a
        then have "j < length ks" using i0 by simp
        with kb a nk [OF j'] show ?thesis by (auto simp: i_def)
      next
        case b
        with nk [OF j'] show ?thesis by (auto simp: i_def)
      next
        case c
        then have "j - 1 < length ks" and "i0 \<le> j - 1" using j' by simp_all
        with kb have "key < fst (ks ! (j - 1))" by simp
        with c nk [OF j'] show ?thesis by (auto simp: i_def)
      qed
    qed
    from cc ilt wf1 ord1 sz1 small lk1 same bounds show ?thesis
      by (intro exI [of _ ks1] exI [of _ cs1] exI [of _ i]) simp
  qed
qed

lemma insert_key_Nil: "insert_key key val [] = [(key, val)]"
  by (simp add: insert_key_def)

lemma insert_key_Cons:
  "insert_key key val (x # xs) =
     (if key \<le> fst x then (if fst x = key then (fst x, val) # xs else (key, val) # x # xs)
      else x # insert_key key val xs)"
  by (simp add: insert_key_def Let_def)

lemma insert_key_set: "fst ` set (insert_key key val ks) = insert key (fst ` set ks)"
  by (induction ks) (auto simp: insert_key_Nil insert_key_Cons)

lemma insert_key_length:
  "length ks \<le> length (insert_key key val ks) \<and> length (insert_key key val ks) \<le> Suc (length ks)"
  by (induction ks) (auto simp: insert_key_Nil insert_key_Cons)

lemma insert_key_sorted:
  fixes ks :: "('k::linorder \<times> 'v) list"
  assumes "sorted_wrt (<) (map fst ks)"
  shows "sorted_wrt (<) (map fst (insert_key key val ks))"
  using assms
proof (induction ks)
  case Nil
  then show ?case by (simp add: insert_key_Nil)
next
  case (Cons x xs)
  have "fst x < k" if "\<not> key \<le> fst x" and "k \<in> fst ` set (insert_key key val xs)" for k
    using that Cons.prems by (auto simp: insert_key_set)
  with Cons show ?case
    by (auto simp: insert_key_Cons)
qed

lemma keys_of_update:
  assumes "i < length cs" and "keys_of c = insert key (keys_of (cs ! i))"
  shows "(\<Union>d \<in> set (cs[i := c]). keys_of d) = insert key (\<Union>d \<in> set cs. keys_of d)"
proof -
  have a: "set (cs[i := c]) = set (take i cs) \<union> {c} \<union> set (drop (Suc i) cs)"
    using assms(1) by (simp add: upd_conv_take_nth_drop)
  have b: "set cs = set (take i cs) \<union> {cs ! i} \<union> set (drop (Suc i) cs)"
    using assms(1) by (rule set_splice2(2))
  have "(\<Union>d \<in> set cs. keys_of d)
          = (\<Union>d \<in> set (take i cs) \<union> {cs ! i} \<union> set (drop (Suc i) cs). keys_of d)"
    using arg_cong [OF b, of "\<lambda>S. \<Union>d \<in> S. keys_of d"] .
  then show ?thesis
    unfolding a using assms(2) by auto
qed

lemma sized_intro:
  assumes "well_formed c" and "MIN_KEYS \<le> length (keys c)" and "length (keys c) \<le> MAX_KEYS"
    and "\<forall>d \<in> set (children c). sized d"
  shows "sized c"
  using assms by (cases c) auto

lemma insert_non_full_inv:
  assumes "well_formed n" and "ordered n" and "\<forall>c \<in> set (children n). sized c"
    and "length (keys n) < MAX_KEYS"
  shows "\<exists>n1. insert_non_full n key val = Some n1 \<and> well_formed n1 \<and> ordered n1
      \<and> (\<forall>c \<in> set (children n1). sized c)
      \<and> length (keys n) \<le> length (keys n1) \<and> length (keys n1) \<le> Suc (length (keys n))
      \<and> keys_of n1 = insert key (keys_of n) \<and> is_leaf n1 = is_leaf n"
  using assms
proof (induction "weight n" arbitrary: n rule: less_induct)
  case less
  from less.prems(1) obtain leaf ks cs where n: "n = BTreeNode leaf ks cs"
    by (cases n) auto
  show ?case
  proof (cases leaf)
    case True
    with less.prems n have "cs = []" and "sorted_wrt (<) (map fst ks)" by simp_all
    then show ?thesis
      using True n insert_key_sorted [of ks key val] insert_key_set [of key val ks]
        insert_key_length [of ks key val]
      by (simp add: separated_def)
  next
    case False
    from less.prems n False
    have wf: "well_formed (BTreeNode False ks cs)" and ord: "ordered (BTreeNode False ks cs)"
      and sz: "\<forall>c \<in> set cs. sized c"
      by simp_all
    from choose_child_inv [OF wf ord sz, of key]
    obtain ks1 cs1 i where
      cc: "choose_child (BTreeNode False ks cs) key = Some (BTreeNode False ks1 cs1, i)"
      and i: "i < length cs1" and wf1: "well_formed (BTreeNode False ks1 cs1)"
      and ord1: "ordered (BTreeNode False ks1 cs1)" and sz1: "\<forall>c \<in> set cs1. sized c"
      and small: "length (keys (cs1 ! i)) < MAX_KEYS"
      and len: "length ks \<le> length ks1" "length ks1 \<le> Suc (length ks)"
      and same: "keys_of (BTreeNode False ks1 cs1) = keys_of (BTreeNode False ks cs)"
      and bounds: "\<forall>j<length ks1. (j < i \<longrightarrow> fst (ks1 ! j) \<le> key) \<and> (i \<le> j \<longrightarrow> key \<le> fst (ks1 ! j))"
      by blast
    have mem: "cs1 ! i \<in> set cs1" using i by simp
    have w: "weight (cs1 ! i) < weight n"
      using choose_child_weight [OF cc i] n False by simp
    have cwf: "well_formed (cs1 ! i)" and cord: "ordered (cs1 ! i)" and csz: "sized (cs1 ! i)"
      using mem wf1 ord1 sz1 by auto
    then have ccs: "\<forall>d \<in> set (children (cs1 ! i)). sized d"
      and cmin: "MIN_KEYS \<le> length (keys (cs1 ! i))"
      by (cases "cs1 ! i"; simp)+
    from less.hyps [OF w cwf cord ccs small]
    obtain c where r: "insert_non_full (cs1 ! i) key val = Some c"
      and c: "well_formed c" "ordered c" "\<forall>d \<in> set (children c). sized d"
        "length (keys (cs1 ! i)) \<le> length (keys c)" "length (keys c) \<le> Suc (length (keys (cs1 ! i)))"
        "keys_of c = insert key (keys_of (cs1 ! i))"
      by blast
    have res: "insert_non_full n key val = Some (BTreeNode False ks1 (cs1[i := c]))"
      using n False cc i r by simp
    have sc: "sized c"
      using c(1) _ _ c(3) by (rule sized_intro) (use c(4,5) cmin small in auto)
    have sub: "set (cs1[i := c]) \<subseteq> insert c (set cs1)"
      by (rule set_update_subset_insert)
    have "well_formed (BTreeNode False ks1 (cs1[i := c]))"
      using wf1 c(1) sub by auto
    moreover have "separated ks1 (cs1[i := c])"
      using _ i _ bounds
    proof (rule separated_update)
      show "separated ks1 cs1" using ord1 by simp
      show "keys_of c \<subseteq> insert key (keys_of (cs1 ! i))" using c(6) by simp
    qed
    then have "ordered (BTreeNode False ks1 (cs1[i := c]))"
      using ord1 c(2) sub by auto
    moreover have "\<forall>d \<in> set (cs1[i := c]). sized d"
      using sz1 sc sub by auto
    moreover have "keys_of (BTreeNode False ks1 (cs1[i := c])) = insert key (keys_of n)"
      using keys_of_update [OF i c(6)] same n False by simp
    ultimately show ?thesis
      using res len n False by simp
  qed
qed

lemma tree_inv_empty: "tree_inv CompleteBTree"
  by (simp add: tree_inv_def CompleteBTree_def separated_def)

lemma split_root_inv:
  assumes wf: "well_formed (BTreeNode leaf ks cs)" and ord: "ordered (BTreeNode leaf ks cs)"
    and sz: "\<forall>c \<in> set cs. sized c" and full: "length ks = MAX_KEYS"
  shows "\<exists>ks1 cs1. split_child (BTreeNode False [] [BTreeNode leaf ks cs]) 0 = Some (BTreeNode False ks1 cs1)
      \<and> well_formed (BTreeNode False ks1 cs1) \<and> ordered (BTreeNode False ks1 cs1)
      \<and> (\<forall>c \<in> set cs1. sized c) \<and> length ks1 = 1
      \<and> keys_of (BTreeNode False ks1 cs1) = keys_of (BTreeNode leaf ks cs)"
proof -
  define l where "l = BTreeNode leaf (take 2 ks) (take 3 cs)"
  define r where "r = BTreeNode leaf (drop 3 ks) (drop 3 cs)"
  have l5: "length ks = 5" using full by simp
  have sk: "sorted_wrt (<) (map fst ks)" using ord by simp
  have sp: "split_child (BTreeNode False [] [BTreeNode leaf ks cs]) 0
              = Some (BTreeNode False [ks ! 2] [l, r])"
    using split_child_full(1) [of 0 "[BTreeNode leaf ks cs]" "[]" leaf ks cs False] wf sk full
    by (simp add: separated_def l_def r_def)
  have pieces: "well_formed l" "well_formed r" "ordered l" "ordered r"
    "keys_of l \<union> {fst (ks ! 2)} \<union> keys_of r = keys_of (BTreeNode leaf ks cs)"
    "\<forall>k \<in> keys_of l. k \<le> fst (ks ! 2)" "\<forall>k \<in> keys_of r. fst (ks ! 2) \<le> k"
    unfolding l_def r_def by (fact split_pieces [OF wf ord full])+
  have sized_lr: "sized l" "sized r"
    using sz l5 set_take_subset [of 3 cs] set_drop_subset [of 3 cs]
    by (auto simp: l_def r_def)
  have "separated [ks ! 2] [l, r]"
    unfolding separated_def using pieces(6,7) by (auto simp: less_Suc_eq nth_Cons')
  then have "ordered (BTreeNode False [ks ! 2] [l, r])"
    using pieces(3,4) by simp
  moreover have "well_formed (BTreeNode False [ks ! 2] [l, r])"
    using pieces(1,2) by simp
  moreover have "keys_of (BTreeNode False [ks ! 2] [l, r]) = keys_of (BTreeNode leaf ks cs)"
    using pieces(5) by auto
  ultimately show ?thesis
    using sp sized_lr by (intro exI [of _ "[ks ! 2]"] exI [of _ "[l, r]"]) simp
qed

lemma insert_tree_inv:
  assumes "tree_inv t"
  shows "\<exists>t1. insert_tree t key val = Some t1 \<and> tree_inv t1
      \<and> keys_of t1 = insert key (keys_of t)"
proof -
  from assms obtain leaf ks cs where t: "t = BTreeNode leaf ks cs"
    by (cases t) (auto simp: tree_inv_def)
  from assms t have wf: "well_formed (BTreeNode leaf ks cs)" and ord: "ordered (BTreeNode leaf ks cs)"
    and sz: "\<forall>c \<in> set cs. sized c" and le: "length ks \<le> MAX_KEYS"
    by (simp_all add: tree_inv_def)
  show ?thesis
  proof (cases "length ks = MAX_KEYS")
    case True
    from split_root_inv [OF wf ord sz True]
    obtain ks1 cs1 where sp: "split_child (BTreeNode False [] [BTreeNode leaf ks cs]) 0
          = Some (BTreeNode False ks1 cs1)"
      and r: "well_formed (BTreeNode False ks1 cs1)" "ordered (BTreeNode False ks1 cs1)"
        "\<forall>c \<in> set cs1. sized c" "length ks1 = 1"
        "keys_of (BTreeNode False ks1 cs1) = keys_of (BTreeNode leaf ks cs)"
      by blast
    from insert_non_full_inv [of "BTreeNode False ks1 cs1" key val] r
    obtain n1 where "insert_non_full (BTreeNode False ks1 cs1) key val = Some n1"
      and "well_formed n1" "ordered n1" "\<forall>c \<in> set (children n1). sized c"
        "length (keys n1) \<le> Suc (length ks1)" "keys_of n1 = insert key (keys_of (BTreeNode False ks1 cs1))"
        "length ks1 \<le> length (keys n1)"
      by auto
    with sp r(4,5) True t show ?thesis
      by (auto simp: insert_tree_def tree_inv_def)
  next
    case False
    with le have "length (keys (BTreeNode leaf ks cs)) < MAX_KEYS" by simp
    from insert_non_full_inv [OF wf ord _ this, of key val] sz
    obtain n1 where "insert_non_full (BTreeNode leaf ks cs) key val = Some n1"
      and "well_formed n1" "ordered n1" "\<forall>c \<in> set (children n1). sized c"
        "length (keys n1) \<le> Suc (length ks)" "keys_of n1 = insert key (keys_of (BTreeNode leaf ks cs))"
        "length ks \<le> length (keys n1)" "is_leaf n1 = leaf"
      by auto
    with False le t assms show ?thesis
      by (auto simp: insert_tree_def tree_inv_def)
  qed
qed

lemma insert_all_inv:
  assumes "tree_inv t"
  shows "\<exists>t1. insert_all ops t = Some t1 \<and> tree_inv t1 \<and> keys_of t1 = keys_of t \<union> fst ` set ops"
  using assms
proof (induction ops arbitrary: t)
  case Nil
  then show ?case by simp
next
  case (Cons kv ops)
  from insert_tree_inv [OF Cons.prems, of "fst kv" "snd kv"]
  obtain t1 where a: "insert_tree t (fst kv) (snd kv) = Some t1" "tree_inv t1"
    "keys_of t1 = insert (fst kv) (keys_of t)"
    by blast
  from Cons.IH [OF a(2)]
  obtain t2 where "insert_all ops t1 = Some t2" "tree_inv t2" "keys_of t2 = keys_of t1 \<union> fst ` set ops"
    by blast
  with a show ?case by auto
qed

lemma tree_inv_root_keys:
  assumes "tree_inv t" and "keys_of t \<noteq> {}"
  shows "keys t \<noteq> []"
  using assms by (cases t) (auto simp: tree_inv_def)

lemma sized_every_node: "sized c \<Longrightarrow> every_node_within MIN_KEYS MAX_KEYS c"
proof (induction c)
  case Null
  then show ?case by (simp add: every_node_within_def)
next
  case (BTreeNode leaf ks cs)
  then have "\<forall>c \<in> set cs. list_all (\<lambda>n. MIN_KEYS \<le> length (keys n) \<and> length (keys n) \<le> MAX_KEYS) (all_nodes c)"
    by (auto simp: every_node_within_def)
  with BTreeNode.prems show ?case
    by (auto simp: every_node_within_def list_all_iff)
qed


lemma descent_inv:
  assumes "well_formed n" and "ordered n" and "\<forall>c \<in> set (children n). sized c"
    and "length (keys n) < MAX_KEYS"
  shows "\<forall>x \<in> set (descent n key). x \<noteq> Null \<and> length (keys x) < MAX_KEYS"
  using assms
proof (induction "weight n" arbitrary: n rule: less_induct)
  case less
  from less.prems(1) obtain leaf ks cs where n: "n = BTreeNode leaf ks cs"
    by (cases n) auto
  show ?case
  proof (cases leaf)
    case True
    with less.prems n show ?thesis by simp
  next
    case False
    from less.prems n False
    have wf: "well_formed (BTreeNode False ks cs)" and ord: "ordered (BTreeNode False ks cs)"
      and sz: "\<forall>c \<in> set cs. sized c"
      by simp_all
    from choose_child_inv [OF wf ord sz, of key]
    obtain ks1 cs1 i where
      cc: "choose_child (BTreeNode False ks cs) key = Some (BTreeNode False ks1 cs1, i)"
      and i: "i < length cs1" and wf1: "well_formed (BTreeNode False ks1 cs1)"
      and ord1: "ordered (BTreeNode False ks1 cs1)" and sz1: "\<forall>c \<in> set cs1. sized c"
      and small: "length (keys (cs1 ! i)) < MAX_KEYS"
      by blast
    have mem: "cs1 ! i \<in> set cs1" using i by simp
    have w: "weight (cs1 ! i) < weight n"
      using choose_child_weight [OF cc i] n False by simp
    have cwf: "well_formed (cs1 ! i)" and cord: "ordered (cs1 ! i)" and csz: "sized (cs1 ! i)"
      using mem wf1 ord1 sz1 by auto
    then have ccs: "\<forall>d \<in> set (children (cs1 ! i)). sized d"
      by (cases "cs1 ! i"; simp)
    from less.hyps [OF w cwf cord ccs small] cc i n False less.prems(4)
    show ?thesis by simp
  qed
qed

lemma insert_path_inv:
  assumes "tree_inv t"
  shows "\<forall>x \<in> set (insert_path t key). x \<noteq> Null \<and> length (keys x) < MAX_KEYS"
proof -
  from assms obtain leaf ks cs where t: "t = BTreeNode leaf ks cs"
    by (cases t) (auto simp: tree_inv_def)
  from assms t have wf: "well_formed (BTreeNode leaf ks cs)" and ord: "ordered (BTreeNode leaf ks cs)"
    and sz: "\<forall>c \<in> set cs. sized c" and le: "length ks \<le> MAX_KEYS"
    by (simp_all add: tree_inv_def)
  show ?thesis
  proof (cases "length ks = MAX_KEYS")
    case True
    from split_root_inv [OF wf ord sz True]
    obtain ks1 cs1 where sp: "split_child (BTreeNode False [] [BTreeNode leaf ks cs]) 0
          = Some (BTreeNode False ks1 cs1)"
      and r: "well_formed (BTreeNode False ks1 cs1)" "ordered (BTreeNode False ks1 cs1)"
        "\<forall>c \<in> set cs1. sized c" "length ks1 = 1"
      by blast
    from descent_inv [of "BTreeNode False ks1 cs1" key] r sp True t show ?thesis
      by (simp add: insert_path_def)
  next
    case False
    with le have "length (keys (BTreeNode leaf ks cs)) < MAX_KEYS" by simp
    from descent_inv [OF wf ord _ this, of key] sz False t show ?thesis
      by (simp add: insert_path_def)
  qed
qed


section \<open>Key counts and splitting before descent\<close>

text \<open>
  Claim C4, amended. \<open>ORDER\<close> is 3, the minimum 2 and the maximum 5. Every sequence of
  inserts into an empty tree is defined and ends in a tree whose root holds at most 5 keys
  (and at least one as soon as something was inserted) and in which every node other than the
  root holds between 2 and 5 keys. A further \<open>insert\<close> on that tree calls \<open>insert_non_full\<close>
  only on nodes that hold fewer than 5 keys at the time of the call: a full root or a full
  child has been split before the insertion descends into it.
\<close>

theorem C4_key_counts_and_eager_split:
  "ORDER = 3 \<and> MIN_KEYS = 2 \<and> MAX_KEYS = 5
   \<and> (\<exists>t. insert_all ops CompleteBTree = Some t
        \<and> length (keys t) \<le> MAX_KEYS
        \<and> (ops \<noteq> [] \<longrightarrow> 1 \<le> length (keys t))
        \<and> (\<forall>c \<in> set (children t). every_node_within MIN_KEYS MAX_KEYS c)
        \<and> (\<forall>n \<in> set (insert_path t key). n \<noteq> Null \<and> length (keys n) < MAX_KEYS))"
proof -
  from insert_all_inv [OF tree_inv_empty, of ops]
  obtain t where t: "insert_all ops CompleteBTree = Some t" "tree_inv t"
    "keys_of t = fst ` set ops"
    by (auto simp: CompleteBTree_def)
  have "1 \<le> length (keys t)" if "ops \<noteq> []"
  proof -
    from that t(3) have "keys_of t \<noteq> {}" by simp
    with t(2) have "keys t \<noteq> []" by (rule tree_inv_root_keys)
    then show ?thesis by (cases "keys t") simp_all
  qed
  moreover have "\<forall>c \<in> set (children t). every_node_within MIN_KEYS MAX_KEYS c"
    using t(2) sized_every_node by (auto simp: tree_inv_def)
  moreover have "length (keys t) \<le> MAX_KEYS"
    using t(2) by (simp add: tree_inv_def)
  ultimately show ?thesis
    using t(1) insert_path_inv [OF t(2), of key]
    by (auto simp: ORDER_def)
qed

lemma eight_tree_reached: "insert_all eight_keys CompleteBTree = Some eight_tree"
  unfolding eight_keys_def six_keys_def eight_tree_def by code_simp

text \<open>On the tree of the eight inserts, \<open>insert(k9, _)\<close> finds the right leaf full: the call
  on the root splits it, and the next call is on the upper half, which holds two keys.\<close>

lemma eight_tree_path:
  "insert_path eight_tree ''k9''
     = [eight_tree, BTreeNode True [(''k7'', 70), (''k8'', 80)] []]"
  unfolding eight_tree_def insert_path_def by code_simp

theorem C4_key_counts_witness:
  "eight_keys \<noteq> []
   \<and> insert_all eight_keys CompleteBTree = Some eight_tree
   \<and> length (keys eight_tree) \<le> MAX_KEYS \<and> 1 \<le> length (keys eight_tree)
   \<and> list_all (every_node_within MIN_KEYS MAX_KEYS) (children eight_tree)
   \<and> list_all (\<lambda>n. n \<noteq> Null \<and> length (keys n) < MAX_KEYS) (insert_path eight_tree ''k9'')"
  using C4_key_counts_and_eager_split [of eight_keys "''k9''"] eight_tree_reached
  by (simp add: eight_keys_def list_all_iff)

section \<open>The stored pairs, the traversals and the reachable trees\<close>

lemma traverse_range_stored:
  "well_formed n \<Longrightarrow>
     traverse_range lo hi n = map snd (filter (\<lambda>kv. lo \<le> fst kv \<and> fst kv \<le> hi) (stored_pairs n))"
proof (induction n)
  case Null
  then show ?case by simp
next
  case (BTreeNode leaf ks cs)
  have eq: "map (traverse_range lo hi) cs
          = map (\<lambda>c. map snd (filter (\<lambda>kv. lo \<le> fst kv \<and> fst kv \<le> hi) (stored_pairs c))) cs"
    using BTreeNode by (intro map_cong) auto
  have "concat (map (traverse_range lo hi) cs)
          = map snd (filter (\<lambda>kv. lo \<le> fst kv \<and> fst kv \<le> hi) (concat (map stored_pairs cs)))"
    unfolding eq by (simp add: map_concat filter_concat comp_def)
  with BTreeNode.prems show ?case by auto
qed

lemma mset_concat_snoc:
  "mset (concat (map (\<lambda>i. a i @ [b i]) xs)) = mset (concat (map a xs)) + mset (map b xs)"
  by (induction xs) auto

lemma concat_map_nth:
  "concat (map (\<lambda>i. f (cs ! i)) [0..<length cs]) = concat (map f cs)"
proof -
  have "map (\<lambda>i. f (cs ! i)) [0..<length cs] = map f (map (\<lambda>i. cs ! i) [0..<length cs])"
    by simp
  also have "\<dots> = map f cs" by (simp only: map_nth)
  finally show ?thesis by simp
qed

lemma traverse_stored:
  "well_formed n \<Longrightarrow> mset (traverse n) = mset (map fst (stored_pairs n))"
proof (induction n)
  case Null
  then show ?case by simp
next
  case (BTreeNode leaf ks cs)
  show ?case
  proof (cases leaf)
    case True
    with BTreeNode.prems have "cs = []" by simp
    have "map (\<lambda>i. fst (ks ! i)) [0..<length ks] = map fst ks"
      by (rule nth_equalityI) auto
    with True \<open>cs = []\<close> show ?thesis
      by (simp add: comp_def)
  next
    case False
    with BTreeNode.prems have len: "length cs = Suc (length ks)" and wf: "\<forall>c \<in> set cs. well_formed c"
      by simp_all
    have m: "map (\<lambda>i. (if \<not> leaf \<and> i < length cs then traverse (cs ! i) else []) @ [fst (ks ! i)])
              [0..<length ks]
            = map (\<lambda>i. traverse (cs ! i) @ [fst (ks ! i)]) [0..<length ks]"
      using False len by (intro map_cong) auto
    have e: "(if \<not> leaf \<and> length ks < length cs then traverse (cs ! length ks) else [])
            = traverse (cs ! length ks)"
      using False len by simp
    have t: "traverse (BTreeNode leaf ks cs)
               = concat (map (\<lambda>i. traverse (cs ! i) @ [fst (ks ! i)]) [0..<length ks])
                 @ traverse (cs ! length ks)"
      unfolding traverse.simps(2) m e ..
    have keys: "map (\<lambda>i. fst (ks ! i)) [0..<length ks] = map fst ks"
      by (rule nth_equalityI) auto
    have "concat (map (\<lambda>i. traverse (cs ! i)) [0..<length ks]) @ traverse (cs ! length ks)
            = concat (map (\<lambda>i. traverse (cs ! i)) [0..<length cs])"
      by (simp add: len)
    also have "\<dots> = concat (map traverse cs)"
      by (rule concat_map_nth)
    finally have sub: "mset (concat (map (\<lambda>i. traverse (cs ! i)) [0..<length ks]))
          + mset (traverse (cs ! length ks)) = mset (concat (map traverse cs))"
      by (metis mset_append)
    have eq: "map (\<lambda>c. mset (traverse c)) cs = map (\<lambda>c. mset (map fst (stored_pairs c))) cs"
      using BTreeNode.IH wf by (intro map_cong) auto
    have "mset (concat (map traverse cs)) = sum_list (map (\<lambda>c. mset (traverse c)) cs)"
      by (simp add: mset_concat comp_def)
    also have "\<dots> = sum_list (map (\<lambda>c. mset (map fst (stored_pairs c))) cs)"
      unfolding eq ..
    also have "\<dots> = mset (map fst (concat (map stored_pairs cs)))"
      by (simp add: mset_concat map_concat comp_def)
    finally have ih: "mset (concat (map traverse cs)) = mset (map fst (concat (map stored_pairs cs)))" .
    show ?thesis
      unfolding t using sub ih keys
      by (simp add: mset_concat_snoc)
  qed
qed

lemma keys_of_stored: "keys_of n = fst ` set (stored_pairs n)"
  by (induction n) auto

lemma insert_all_append:
  "insert_all (ops @ [kv]) t
     = (case insert_all ops t of None \<Rightarrow> None | Some t1 \<Rightarrow> insert_tree t1 (fst kv) (snd kv))"
  by (induction ops arbitrary: t) (auto split: option.splits)

lemma reachable_tree_inv:
  assumes "reachable t"
  shows "tree_inv t"
proof -
  from assms obtain ops where ops: "insert_all ops CompleteBTree = Some t"
    by (auto simp: reachable_def)
  from insert_all_inv [OF tree_inv_empty, of ops] ops show ?thesis by auto
qed

lemma reachable_insert:
  assumes "reachable t"
  shows "\<exists>t1. insert_tree t key val = Some t1 \<and> reachable t1"
proof -
  from assms obtain ops where ops: "insert_all ops CompleteBTree = Some t"
    by (auto simp: reachable_def)
  from insert_tree_inv [OF reachable_tree_inv [OF assms], of key val]
  obtain t1 where t1: "insert_tree t key val = Some t1" by blast
  with ops have "insert_all (ops @ [(key, val)]) CompleteBTree = Some t1"
    by (simp add: insert_all_append)
  then have "reachable t1" unfolding reachable_def by blast
  with t1 show ?thesis by blast
qed

section \<open>Insertion of a key that the tree does not hold\<close>

text \<open>
  Inserting a key that occurs nowhere in the tree adds exactly one pair, and a search for the
  key then finds the new value. A search for a key that the tree holds always finds one of the
  stored pairs with that key. So for inserts with pairwise distinct keys the tree behaves as
  the map it is meant to be; the failing inputs of C1, C2, C3 and C7 all insert a key a
  second time.
\<close>

lemma insert_key_pairs:
  "key \<notin> fst ` set ks \<Longrightarrow> mset (insert_key key val ks) = add_mset (key, val) (mset ks)"
  by (induction ks) (auto simp: insert_key_Nil insert_key_Cons)

lemma search_pos_insert_key:
  "search_pos key (insert_key key val ks) < length (insert_key key val ks)
   \<and> insert_key key val ks ! search_pos key (insert_key key val ks) = (key, val)"
  by (induction ks) (auto simp: insert_key_Nil insert_key_Cons)

lemma search_pos_spec:
  "search_pos key ks \<le> length ks
   \<and> (\<forall>j. j < search_pos key ks \<longrightarrow> fst (ks ! j) < key)
   \<and> (search_pos key ks < length ks \<longrightarrow> key \<le> fst (ks ! search_pos key ks))"
proof (induction ks)
  case Nil
  then show ?case by simp
next
  case (Cons x xs)
  then show ?case by (auto simp: less_Suc_eq_0_disj)
qed

lemma search_pos_at:
  assumes "\<forall>j<i. fst (ks ! j) < key" and "\<forall>j. i \<le> j \<longrightarrow> j < length ks \<longrightarrow> key < fst (ks ! j)"
    and "i \<le> length ks"
  shows "search_pos key ks = i"
proof -
  let ?p = "search_pos key ks"
  note s = search_pos_spec [of key ks]
  have "\<not> ?p < i"
  proof
    assume lt: "?p < i"
    with assms(3) have "?p < length ks" by simp
    with s have "key \<le> fst (ks ! ?p)" by simp
    moreover from lt assms(1) have "fst (ks ! ?p) < key" by simp
    ultimately show False by simp
  qed
  moreover have "\<not> i < ?p"
  proof
    assume lt: "i < ?p"
    with s have "fst (ks ! i) < key" by simp
    moreover from lt s have "i < length ks" by simp
    with assms(2) have "key < fst (ks ! i)" by simp
    ultimately show False by simp
  qed
  ultimately show ?thesis by simp
qed

lemma pairs_update:
  assumes "i < length cs" and "mset (stored_pairs c) = add_mset x (mset (stored_pairs (cs ! i)))"
  shows "mset (concat (map stored_pairs (cs[i := c])))
           = add_mset x (mset (concat (map stored_pairs cs)))"
proof -
  have a: "cs[i := c] = take i cs @ c # drop (Suc i) cs"
    using assms(1) by (rule upd_conv_take_nth_drop)
  have b: "cs = take i cs @ cs ! i # drop (Suc i) cs"
    using assms(1) by (rule id_take_nth_drop)
  have "mset (concat (map stored_pairs cs))
          = mset (concat (map stored_pairs (take i cs))) + mset (stored_pairs (cs ! i))
            + mset (concat (map stored_pairs (drop (Suc i) cs)))"
    by (subst b) simp
  moreover have "mset (concat (map stored_pairs (cs[i := c])))
          = mset (concat (map stored_pairs (take i cs))) + mset (stored_pairs c)
            + mset (concat (map stored_pairs (drop (Suc i) cs)))"
    unfolding a by simp
  ultimately show ?thesis using assms(2) by simp
qed

lemma split_pairs:
  assumes "length cks = 5"
  shows "mset (stored_pairs (BTreeNode cl (take 2 cks) (take 3 ccs))) + {#cks ! 2#}
           + mset (stored_pairs (BTreeNode cl (drop 3 cks) (drop 3 ccs)))
         = mset (stored_pairs (BTreeNode cl cks ccs))"
proof -
  have cks: "cks = take 2 cks @ cks ! 2 # drop 3 cks"
    using id_take_nth_drop [of 2 cks] assms by simp
  have "mset cks = mset (take 2 cks) + {#cks ! 2#} + mset (drop 3 cks)"
    by (subst cks) simp
  moreover have "mset (concat (map stored_pairs ccs))
      = mset (concat (map stored_pairs (take 3 ccs))) + mset (concat (map stored_pairs (drop 3 ccs)))"
    by (metis append_take_drop_id concat_append map_append mset_append)
  ultimately show ?thesis by simp
qed

lemma splice_pairs:
  assumes i: "i < length cs"
    and "mset (stored_pairs l) + {#m#} + mset (stored_pairs r) = mset (stored_pairs (cs ! i))"
  shows "mset (stored_pairs (BTreeNode pl (take i ks @ [m] @ drop i ks)
                               (take i cs @ [l, r] @ drop (Suc i) cs)))
         = mset (stored_pairs (BTreeNode pl ks cs))"
proof -
  have b: "cs = take i cs @ cs ! i # drop (Suc i) cs"
    using i by (rule id_take_nth_drop)
  have c: "mset (concat (map stored_pairs cs))
          = mset (concat (map stored_pairs (take i cs))) + mset (stored_pairs (cs ! i))
            + mset (concat (map stored_pairs (drop (Suc i) cs)))"
    by (subst b) simp
  have k: "mset ks = mset (take i ks) + mset (drop i ks)"
    by (metis append_take_drop_id mset_append)
  show ?thesis
    using assms(2) by (simp add: c k)
qed

lemma choose_child_pairs:
  assumes wf: "well_formed (BTreeNode False ks cs)" and ord: "ordered (BTreeNode False ks cs)"
    and cc: "choose_child (BTreeNode False ks cs) key = Some (n1, i)"
  shows "mset (stored_pairs n1) = mset (stored_pairs (BTreeNode False ks cs))"
proof -
  define i0 where "i0 = descend_scan key ks (length ks)"
  have len: "length cs = Suc (length ks)" and wfc: "\<forall>c \<in> set cs. well_formed c"
    using wf by simp_all
  have sk: "sorted_wrt (<) (map fst ks)" and oc: "\<forall>c \<in> set cs. ordered c" and sep: "separated ks cs"
    using ord by simp_all
  have i0: "i0 \<le> length ks"
    using descend_scan_bounds [OF sk i0_def] by simp
  have i0c: "i0 < length cs" using i0 len by simp
  then have mem: "cs ! i0 \<in> set cs" by simp
  with wfc obtain cl cks ccs where child: "cs ! i0 = BTreeNode cl cks ccs"
    by (cases "cs ! i0") auto
  have wfchild: "well_formed (BTreeNode cl cks ccs)" and ochild: "ordered (BTreeNode cl cks ccs)"
    using mem wfc oc child by auto
  show ?thesis
  proof (cases "length cks = MAX_KEYS")
    case False
    with cc i0c child show ?thesis
      by (simp add: choose_child_def i0_def [symmetric])
  next
    case True
    define l where "l = BTreeNode cl (take 2 cks) (take 3 ccs)"
    define r where "r = BTreeNode cl (drop 3 cks) (drop 3 ccs)"
    have sck: "sorted_wrt (<) (map fst cks)" using ochild by simp
    have sp: "split_child (BTreeNode False ks cs) i0
                = Some (BTreeNode False (take i0 ks @ [cks ! 2] @ drop i0 ks)
                          (take i0 cs @ [l, r] @ drop (Suc i0) cs))"
      unfolding l_def r_def
      by (rule split_child_full(1) [OF i0c len sk sep child wfchild sck True])
    have n1: "n1 = BTreeNode False (take i0 ks @ [cks ! 2] @ drop i0 ks)
                     (take i0 cs @ [l, r] @ drop (Suc i0) cs)"
      using cc i0c child True sp i0
      by (simp add: choose_child_def i0_def [symmetric] split: if_splits)
    have "mset (stored_pairs l) + {#cks ! 2#} + mset (stored_pairs r)
            = mset (stored_pairs (cs ! i0))"
      unfolding l_def r_def child using True by (intro split_pairs) simp
    with i0c show ?thesis
      unfolding n1 by (rule splice_pairs)
  qed
qed

lemma insert_non_full_fresh:
  assumes "well_formed n" and "ordered n" and "\<forall>c \<in> set (children n). sized c"
    and "length (keys n) < MAX_KEYS" and "key \<notin> keys_of n"
  shows "\<exists>n1. insert_non_full n key val = Some n1
      \<and> mset (stored_pairs n1) = add_mset (key, val) (mset (stored_pairs n))
      \<and> search_node n1 key = Some val"
  using assms
proof (induction "weight n" arbitrary: n rule: less_induct)
  case less
  from less.prems(1) obtain leaf ks cs where n: "n = BTreeNode leaf ks cs"
    by (cases n) auto
  show ?case
  proof (cases leaf)
    case True
    with less.prems n have "cs = []" and "key \<notin> fst ` set ks" by simp_all
    then show ?thesis
      using True n insert_key_pairs [of key ks val] search_pos_insert_key [of key val ks]
      by (simp add: Let_def)
  next
    case False
    from less.prems n False
    have wf: "well_formed (BTreeNode False ks cs)" and ord: "ordered (BTreeNode False ks cs)"
      and sz: "\<forall>c \<in> set cs. sized c" and fresh: "key \<notin> keys_of (BTreeNode False ks cs)"
      by simp_all
    from choose_child_inv [OF wf ord sz, of key]
    obtain ks1 cs1 i where
      cc: "choose_child (BTreeNode False ks cs) key = Some (BTreeNode False ks1 cs1, i)"
      and i: "i < length cs1" and wf1: "well_formed (BTreeNode False ks1 cs1)"
      and ord1: "ordered (BTreeNode False ks1 cs1)" and sz1: "\<forall>c \<in> set cs1. sized c"
      and small: "length (keys (cs1 ! i)) < MAX_KEYS"
      and same: "keys_of (BTreeNode False ks1 cs1) = keys_of (BTreeNode False ks cs)"
      and bounds: "\<forall>j<length ks1. (j < i \<longrightarrow> fst (ks1 ! j) \<le> key) \<and> (i \<le> j \<longrightarrow> key \<le> fst (ks1 ! j))"
      by blast
    have pairs1: "mset (stored_pairs (BTreeNode False ks1 cs1))
                    = mset (stored_pairs (BTreeNode False ks cs))"
      using wf ord cc by (rule choose_child_pairs)
    have mem: "cs1 ! i \<in> set cs1" using i by simp
    have w: "weight (cs1 ! i) < weight n"
      using choose_child_weight [OF cc i] n False by simp
    have cwf: "well_formed (cs1 ! i)" and cord: "ordered (cs1 ! i)" and csz: "sized (cs1 ! i)"
      using mem wf1 ord1 sz1 by auto
    then have ccs: "\<forall>d \<in> set (children (cs1 ! i)). sized d"
      by (cases "cs1 ! i"; simp)
    have fresh1: "key \<notin> keys_of (BTreeNode False ks1 cs1)"
      using fresh same by simp
    then have cfresh: "key \<notin> keys_of (cs1 ! i)" and kfresh: "key \<notin> fst ` set ks1"
      using mem by auto
    from less.hyps [OF w cwf cord ccs small cfresh]
    obtain c where r: "insert_non_full (cs1 ! i) key val = Some c"
      and cp: "mset (stored_pairs c) = add_mset (key, val) (mset (stored_pairs (cs1 ! i)))"
      and cs: "search_node c key = Some val"
      by blast
    have res: "insert_non_full n key val = Some (BTreeNode False ks1 (cs1[i := c]))"
      using n False cc i r by simp
    have p: "mset (stored_pairs (BTreeNode False ks1 (cs1[i := c])))
               = add_mset (key, val) (mset (stored_pairs n))"
      using pairs_update [OF i cp] pairs1 n False by simp
    have lenk: "length cs1 = Suc (length ks1)" using wf1 by simp
    have strict: "fst (ks1 ! j) \<noteq> key" if "j < length ks1" for j
      using kfresh that by (metis image_eqI nth_mem)
    have "search_pos key ks1 = i"
    proof (rule search_pos_at)
      show "\<forall>j<i. fst (ks1 ! j) < key"
        using bounds strict i lenk by (auto simp: less_le)
      show "\<forall>j. i \<le> j \<longrightarrow> j < length ks1 \<longrightarrow> key < fst (ks1 ! j)"
        using bounds strict by (metis order_le_imp_less_or_eq)
      show "i \<le> length ks1" using i lenk by simp
    qed
    then have "search_node (BTreeNode False ks1 (cs1[i := c])) key = Some val"
      using strict [of i] i cs by (auto simp: Let_def)
    with res p show ?thesis by simp
  qed
qed

lemma split_root_pairs:
  assumes wf: "well_formed (BTreeNode leaf ks cs)" and ord: "ordered (BTreeNode leaf ks cs)"
    and full: "length ks = MAX_KEYS"
    and sp: "split_child (BTreeNode False [] [BTreeNode leaf ks cs]) 0 = Some r"
  shows "mset (stored_pairs r) = mset (stored_pairs (BTreeNode leaf ks cs))"
proof -
  have sk: "sorted_wrt (<) (map fst ks)" using ord by simp
  have "split_child (BTreeNode False [] [BTreeNode leaf ks cs]) 0
          = Some (BTreeNode False [ks ! 2]
               [BTreeNode leaf (take 2 ks) (take 3 cs), BTreeNode leaf (drop 3 ks) (drop 3 cs)])"
    using split_child_full(1) [of 0 "[BTreeNode leaf ks cs]" "[]" leaf ks cs False] wf sk full
    by (simp add: separated_def)
  with sp have r: "r = BTreeNode False [ks ! 2]
               [BTreeNode leaf (take 2 ks) (take 3 cs), BTreeNode leaf (drop 3 ks) (drop 3 cs)]"
    by simp
  show ?thesis
    unfolding r using split_pairs [of ks leaf cs] full by (simp add: ac_simps)
qed

lemma insert_tree_fresh:
  assumes "tree_inv t" and "key \<notin> keys_of t"
  shows "\<exists>t1. insert_tree t key val = Some t1
      \<and> mset (stored_pairs t1) = add_mset (key, val) (mset (stored_pairs t))
      \<and> search t1 key = Some val"
proof -
  from assms obtain leaf ks cs where t: "t = BTreeNode leaf ks cs"
    by (cases t) (auto simp: tree_inv_def)
  from assms t have wf: "well_formed (BTreeNode leaf ks cs)" and ord: "ordered (BTreeNode leaf ks cs)"
    and sz: "\<forall>c \<in> set cs. sized c" and le: "length ks \<le> MAX_KEYS"
    by (simp_all add: tree_inv_def)
  show ?thesis
  proof (cases "length ks = MAX_KEYS")
    case True
    from split_root_inv [OF wf ord sz True]
    obtain ks1 cs1 where sp: "split_child (BTreeNode False [] [BTreeNode leaf ks cs]) 0
          = Some (BTreeNode False ks1 cs1)"
      and r: "well_formed (BTreeNode False ks1 cs1)" "ordered (BTreeNode False ks1 cs1)"
        "\<forall>c \<in> set cs1. sized c" "length ks1 = 1"
        "keys_of (BTreeNode False ks1 cs1) = keys_of (BTreeNode leaf ks cs)"
      by blast
    have p: "mset (stored_pairs (BTreeNode False ks1 cs1)) = mset (stored_pairs (BTreeNode leaf ks cs))"
      using wf ord True sp by (rule split_root_pairs)
    have fresh1: "key \<notin> keys_of (BTreeNode False ks1 cs1)"
      using r(5) assms(2) t by simp
    have small: "length (keys (BTreeNode False ks1 cs1)) < MAX_KEYS"
      using r(4) by simp
    have sz1: "\<forall>c \<in> set (children (BTreeNode False ks1 cs1)). sized c"
      using r(3) by simp
    from insert_non_full_fresh [OF r(1) r(2) sz1 small fresh1, of val]
    obtain n1 where "insert_non_full (BTreeNode False ks1 cs1) key val = Some n1"
      and "mset (stored_pairs n1) = add_mset (key, val) (mset (stored_pairs (BTreeNode False ks1 cs1)))"
      and "search_node n1 key = Some val"
      by blast
    with sp p True t show ?thesis
      by (auto simp: insert_tree_def search_def)
  next
    case False
    with le have "length (keys (BTreeNode leaf ks cs)) < MAX_KEYS" by simp
    then have small: "length (keys (BTreeNode leaf ks cs)) < MAX_KEYS" .
    have fresh: "key \<notin> keys_of (BTreeNode leaf ks cs)"
      using assms(2) t by simp
    have sz0: "\<forall>c \<in> set (children (BTreeNode leaf ks cs)). sized c"
      using sz by simp
    from insert_non_full_fresh [OF wf ord sz0 small fresh, of val]
    obtain n1 where "insert_non_full (BTreeNode leaf ks cs) key val = Some n1"
      and "mset (stored_pairs n1) = add_mset (key, val) (mset (stored_pairs (BTreeNode leaf ks cs)))"
      and "search_node n1 key = Some val"
      by blast
    with False t show ?thesis
      by (auto simp: insert_tree_def search_def)
  qed
qed

lemma search_node_finds:
  assumes "well_formed n" and "ordered n" and "key \<in> keys_of n"
  shows "\<exists>v. search_node n key = Some v \<and> (key, v) \<in> set (stored_pairs n)"
  using assms
proof (induction n)
  case Null
  then show ?case by simp
next
  case (BTreeNode leaf ks cs)
  let ?p = "search_pos key ks"
  note s = search_pos_spec [of key ks]
  have sk: "sorted_wrt (<) (map fst ks)" and sep: "separated ks cs"
    using BTreeNode.prems(2) by simp_all
  show ?case
  proof (cases "?p < length ks \<and> key = fst (ks ! ?p)")
    case True
    then have "ks ! ?p \<in> set ks" by simp
    with True have "(key, snd (ks ! ?p)) \<in> set ks"
      by (metis prod.collapse)
    with True show ?thesis by (simp add: Let_def)
  next
    case False
    have notin: "key \<notin> fst ` set ks"
    proof
      assume "key \<in> fst ` set ks"
      then obtain j where j: "j < length ks" and kj: "key = fst (ks ! j)"
        by (auto simp: in_set_conv_nth)
      have "\<not> j < ?p" using s kj by auto
      moreover have "j \<noteq> ?p" using False j kj by auto
      moreover have "\<not> ?p < j"
      proof
        assume lt: "?p < j"
        with sk j have "fst (ks ! ?p) < fst (ks ! j)"
          by (simp add: sorted_wrt_iff_nth_less)
        moreover from lt j s have "key \<le> fst (ks ! ?p)" by simp
        ultimately show False using kj by simp
      qed
      ultimately show False by simp
    qed
    with BTreeNode.prems(3) obtain q where q: "q < length cs" and kq: "key \<in> keys_of (cs ! q)"
      by (auto simp: in_set_conv_nth)
    then have nl: "\<not> leaf" and len: "length cs = Suc (length ks)"
      using BTreeNode.prems(1) by (auto split: if_splits)
    have strict: "key < fst (ks ! ?p)" if "?p < length ks"
      using s that notin by (metis image_eqI nth_mem order_le_imp_less_or_eq)
    have "\<not> q < ?p"
    proof
      assume lt: "q < ?p"
      with s have ql: "q < length ks" and "fst (ks ! q) < key" by simp_all
      moreover from sep q ql kq have "key \<le> fst (ks ! q)"
        unfolding separated_def by blast
      ultimately show False by simp
    qed
    moreover have "\<not> ?p < q"
    proof
      assume lt: "?p < q"
      with q len have pl: "?p < length ks" by simp
      with sep q kq lt have "fst (ks ! ?p) \<le> key"
        unfolding separated_def by blast
      with strict [OF pl] show False by simp
    qed
    ultimately have qp: "q = ?p" by simp
    have mem: "cs ! q \<in> set cs" using q by simp
    then have "well_formed (cs ! q)" and "ordered (cs ! q)"
      using BTreeNode.prems(1,2) by auto
    with BTreeNode.IH [OF mem] kq
    obtain v where v: "search_node (cs ! q) key = Some v" "(key, v) \<in> set (stored_pairs (cs ! q))"
      by blast
    have "search_node (BTreeNode leaf ks cs) key = Some v"
      using False nl q qp v(1) by (auto simp: Let_def)
    moreover have "(key, v) \<in> set (stored_pairs (BTreeNode leaf ks cs))"
      using v(2) mem by auto
    ultimately show ?thesis by blast
  qed
qed

lemma insert_all_distinct:
  assumes "tree_inv t" and "distinct (map fst ops)" and "fst ` set ops \<inter> keys_of t = {}"
  shows "\<exists>t1. insert_all ops t = Some t1 \<and> tree_inv t1
      \<and> mset (stored_pairs t1) = mset (stored_pairs t) + mset ops"
  using assms
proof (induction ops arbitrary: t)
  case Nil
  then show ?case by simp
next
  case (Cons kv ops)
  have fresh: "fst kv \<notin> keys_of t" using Cons.prems(3) by auto
  from insert_tree_inv [OF Cons.prems(1), of "fst kv" "snd kv"]
    insert_tree_fresh [OF Cons.prems(1) fresh, of "snd kv"]
  obtain t1 where a: "insert_tree t (fst kv) (snd kv) = Some t1" "tree_inv t1"
    "keys_of t1 = insert (fst kv) (keys_of t)"
    "mset (stored_pairs t1) = add_mset kv (mset (stored_pairs t))"
    by auto
  have "fst ` set ops \<inter> keys_of t1 = {}"
    using Cons.prems(2,3) a(3) by auto
  with Cons.IH [OF a(2)] Cons.prems(2)
  obtain t2 where "insert_all ops t1 = Some t2" "tree_inv t2"
    "mset (stored_pairs t2) = mset (stored_pairs t1) + mset ops"
    by auto
  with a show ?case by auto
qed

theorem distinct_keys_round_trip:
  assumes "distinct (map fst ops)"
  shows "\<exists>t. insert_all ops CompleteBTree = Some t
      \<and> mset (stored_pairs t) = mset ops
      \<and> (\<forall>kv \<in> set ops. search t (fst kv) = Some (snd kv))
      \<and> mset (get_all_keys t) = mset (map fst ops)
      \<and> distinct (get_all_keys t)"
proof -
  have "fst ` set ops \<inter> keys_of (CompleteBTree :: ('a, 'b) BTreeNode) = {}"
    by (simp add: CompleteBTree_def)
  from insert_all_distinct [OF tree_inv_empty assms this]
  obtain t where t: "insert_all ops CompleteBTree = Some t" "tree_inv t"
    "mset (stored_pairs t) = mset ops"
    by (auto simp: CompleteBTree_def)
  from t(2) have wf: "well_formed t" and ord: "ordered t" by (simp_all add: tree_inv_def)
  from t(3) have sets: "set (stored_pairs t) = set ops" by (rule mset_eq_setD)
  have "search t (fst kv) = Some (snd kv)" if "kv \<in> set ops" for kv
  proof -
    from that sets have "fst kv \<in> keys_of t" by (auto simp: keys_of_stored)
    from search_node_finds [OF wf ord this]
    obtain v where v: "search_node t (fst kv) = Some v" "(fst kv, v) \<in> set ops"
      using sets by auto
    from assms v(2) that have "v = snd kv"
      by (metis eq_key_imp_eq_value prod.collapse)
    with v(1) show ?thesis by (simp add: search_def)
  qed
  moreover have k: "mset (get_all_keys t) = mset (map fst ops)"
    using traverse_stored [OF wf] t(3) by (simp add: get_all_keys_def)
  moreover have "distinct (get_all_keys t)"
    using assms k by (metis mset_eq_imp_distinct_iff)
  ultimately show ?thesis using t by blast
qed


section \<open>Range queries against the stored pairs\<close>

text \<open>
  What \<open>range_query\<close> computes on every tree that inserts build from the empty tree (every
  insert sequence is defined): the values of the pairs held by the nodes whose key \<open>k\<close>
  satisfies \<open>low \<le> k\<close> and \<open>k \<le> high\<close>, in the order in which the nodes are visited. The
  keys of these pairs are the keys that \<open>get_all_keys\<close> enumerates and the keys that were
  inserted; the pairs are the inserted pairs when the inserted keys are pairwise distinct.
  A pair that a later insert of the same key should have replaced is still a pair of a node.
\<close>

lemma range_query_node_pairs:
  "\<exists>t. insert_all ops CompleteBTree = Some t
     \<and> range_query t low high = brute_force_range t low high
     \<and> mset (range_query t low high)
         = image_mset snd (filter_mset (\<lambda>kv. low \<le> fst kv \<and> fst kv \<le> high) (mset (stored_pairs t)))
     \<and> mset (map fst (stored_pairs t)) = mset (get_all_keys t)
     \<and> fst ` set (stored_pairs t) = fst ` set ops
     \<and> (distinct (map fst ops) \<longrightarrow> mset (stored_pairs t) = mset ops)"
proof -
  from insert_all_inv [OF tree_inv_empty, of ops]
  obtain t where t: "insert_all ops CompleteBTree = Some t" "tree_inv t"
    "keys_of t = fst ` set ops"
    by (auto simp: CompleteBTree_def)
  from t(2) have wf: "well_formed t" by (simp add: tree_inv_def)
  have r: "range_query t low high = brute_force_range t low high"
    using traverse_range_stored [OF wf] by (simp add: range_query_def brute_force_range_def)
  have m: "mset (brute_force_range t low high)
          = image_mset snd (filter_mset (\<lambda>kv. low \<le> fst kv \<and> fst kv \<le> high) (mset (stored_pairs t)))"
    by (simp add: brute_force_range_def)
  have d: "mset (stored_pairs t) = mset ops" if "distinct (map fst ops)"
  proof -
    have "fst ` set ops \<inter> keys_of (CompleteBTree :: ('a, 'b) BTreeNode) = {}"
      by (simp add: CompleteBTree_def)
    from insert_all_distinct [OF tree_inv_empty that this] t(1)
    show ?thesis by (auto simp: CompleteBTree_def)
  qed
  from r m d t traverse_stored [OF wf] keys_of_stored [of t] show ?thesis
    by (auto simp: get_all_keys_def)
qed

lemma eight_tree_range: "range_query eight_tree ''k2'' ''k6'' = [30, 20, 40, 50, 60]"
  unfolding eight_tree_def range_query_def by code_simp

lemma eight_tree_node_pairs:
  "insert_all eight_keys CompleteBTree = Some eight_tree
   \<and> range_query eight_tree ''k2'' ''k6'' = [30, 20, 40, 50, 60]
   \<and> brute_force_range eight_tree ''k2'' ''k6'' = [30, 20, 40, 50, 60]
   \<and> mset (map fst (stored_pairs eight_tree)) = mset (get_all_keys eight_tree)
   \<and> distinct (map fst eight_keys)
   \<and> mset (stored_pairs eight_tree) = mset eight_keys"
proof -
  have "distinct (map fst eight_keys)"
    by (simp add: eight_keys_def six_keys_def)
  then show ?thesis
    using range_query_node_pairs [of eight_keys "''k2''" "''k6''"] eight_tree_reached eight_tree_range
    by auto
qed

text \<open>
  Claim C5, at a failing input. After \<open>k1\<close>, ..., \<open>k6\<close> and \<open>insert(k3, 31)\<close> the tree is a
  map with six keys, of which only \<open>k3\<close> lies within the bounds \<open>[k3, k3]\<close>, and
  \<open>search(k3)\<close> finds one value for it, 30. \<open>range_query(k3, k3)\<close> returns two values, 30
  and 31: the pair of the internal root, which the last insert should have replaced, and
  the pair that this insert stored in the leaf. So the result is not the multiset of the
  values of the stored keys within the bounds, neither with the value that \<open>search\<close> finds
  for \<open>k3\<close> nor with the value 31 that was inserted last. Over the bounds \<open>[k1, k6]\<close>
  \<open>range_query\<close> returns seven values for the six keys.
\<close>

theorem C5_range_query_returns_replaced_value:
  "map_option (\<lambda>t. range_query t ''k3'' ''k3'')
       (insert_all (six_keys @ [(''k3'', 31)]) CompleteBTree) = Some [30, 31]
   \<and> map_option (\<lambda>t. search t ''k3'')
       (insert_all (six_keys @ [(''k3'', 31)]) CompleteBTree) = Some (Some 30)
   \<and> map_option (\<lambda>t. map (\<lambda>k. (k, search t k))
         (filter (\<lambda>k. ''k3'' \<le> k \<and> k \<le> ''k3'') (remdups (get_all_keys t))))
       (insert_all (six_keys @ [(''k3'', 31)]) CompleteBTree) = Some [(''k3'', Some 30)]
   \<and> map_option (\<lambda>t. length (remdups (get_all_keys t)))
       (insert_all (six_keys @ [(''k3'', 31)]) CompleteBTree) = Some 6
   \<and> map_option (\<lambda>t. range_query t ''k1'' ''k6'')
       (insert_all (six_keys @ [(''k3'', 31)]) CompleteBTree)
     = Some [30, 10, 20, 31, 40, 50, 60]"
  unfolding six_keys_def range_query_def search_def get_all_keys_def by code_simp


section \<open>The priority snapshot\<close>

lemma sorted_wrt_last:
  assumes "sorted_wrt R xs" and "e \<in> set (butlast xs)"
  shows "R e (last xs)"
proof -
  from assms(2) have "xs \<noteq> []" by auto
  then have "xs = butlast xs @ [last xs]" by simp
  with assms(1) have "sorted_wrt R (butlast xs @ [last xs])" by simp
  with assms(2) show ?thesis by (simp add: sorted_wrt_append)
qed

lemma last_lowest:
  assumes "sorted_wrt (\<lambda>a b. \<not> higher_priority b a) xs" and "e \<in> set xs"
  shows "pq_priority (last xs) \<le> pq_priority e"
proof (cases "e \<in> set (butlast xs)")
  case True
  with assms(1) have "\<not> higher_priority (last xs) e" by (rule sorted_wrt_last)
  then show ?thesis by (simp add: higher_priority_def)
next
  case False
  from assms(2) have "xs \<noteq> []" by auto
  then have "set xs = insert (last xs) (set (butlast xs))"
    by (metis append_butlast_last_id list.simps(15) rotate1.simps(2) set_rotate1)
  with False assms(2) show ?thesis by auto
qed

lemma add_quest_result:
  assumes c: "std_sort_contract higher_priority srt" and r: "reachable (quest_btree db)"
  shows "\<exists>db1. add_quest srt sys db q = (db1, Returns ())
      \<and> reachable (quest_btree db1)
      \<and> sorted_wrt (\<lambda>a b. \<not> higher_priority b a) (pq_entries db1)
      \<and> mset (pq_entries db1)
          = mset (pq_entries db) + {#\<lparr>quest = q, pq_priority = priority q, timestamp = clock sys 0\<rparr>#}"
proof -
  from reachable_insert [OF r, of "quest_id q" q]
  obtain qt where "insert_tree (quest_btree db) (quest_id q) q = Some qt" and "reachable qt" by blast
  with c show ?thesis
    by (simp add: add_quest_def std_sort_contract_def)
qed

lemma sort_descending_contract: "std_sort_contract higher_priority sort_descending"
proof -
  have "sorted_wrt (\<lambda>a b. \<not> higher_priority b a) (sort_key (\<lambda>e. - pq_priority e) xs)" for xs
  proof -
    have "sorted (map (\<lambda>e. - pq_priority e) (sort_key (\<lambda>e. - pq_priority e) xs))"
      by (rule sorted_sort_key)
    then show ?thesis
      by (simp add: sorted_map higher_priority_def not_less)
  qed
  then show ?thesis
    by (simp add: std_sort_contract_def sort_descending_def)
qed

lemma get_next_quest_sorted:
  assumes s: "sorted_wrt (\<lambda>a b. pq_priority a \<ge> pq_priority b) (pq_entries db)"
    and ne: "pq_entries db \<noteq> []"
  shows "get_next_quest db = (db\<lparr>pq_entries := butlast (pq_entries db)\<rparr>,
                               Returns (quest (last (pq_entries db))))
      \<and> (\<forall>e \<in> set (pq_entries db). pq_priority (last (pq_entries db)) \<le> pq_priority e)
      \<and> sorted_wrt (\<lambda>a b. pq_priority a \<ge> pq_priority b)
           (pq_entries (fst (get_next_quest db)))"
proof -
  from s have s': "sorted_wrt (\<lambda>a b. \<not> higher_priority b a) (pq_entries db)"
    by (simp add: higher_priority_def not_less)
  have "sorted_wrt (\<lambda>a b. pq_priority a \<ge> pq_priority b) (butlast (pq_entries db))"
    using s by (simp add: butlast_conv_take sorted_wrt_take)
  then show ?thesis
    using ne last_lowest [OF s'] by (simp add: get_next_quest_def)
qed

text \<open>
  Claim C6. Let the quest tree be one that inserts have built and let \<open>std::sort\<close> keep its
  promise. Then \<open>add_quest\<close> returns normally and leaves the snapshot, which has gained the
  new entry, sorted by descending priority; a \<open>get_next_quest\<close> that follows removes the
  entry at the back and returns its quest, and no entry has a lower priority than that one.
  In particular, on a snapshot that was empty, after quests with the priorities 1, 5 and 3
  were added, in this order, \<open>get_next_quest\<close> returns the quest with priority 1.
  On any snapshot that is sorted by descending priority and not empty, \<open>get_next_quest\<close>
  removes the last entry, whose priority is the lowest, returns its quest and leaves the
  snapshot sorted, so the same holds for each further call.
\<close>

theorem C6_lowest_priority_at_back:
  assumes c: "std_sort_contract higher_priority srt" and r: "reachable (quest_btree db)"
  shows "(\<exists>db1. add_quest srt sys db q = (db1, Returns ())
            \<and> sorted_wrt (\<lambda>a b. pq_priority a \<ge> pq_priority b) (pq_entries db1)
            \<and> mset (pq_entries db1) = mset (pq_entries db)
                 + {#\<lparr>quest = q, pq_priority = priority q, timestamp = clock sys 0\<rparr>#}
            \<and> get_next_quest db1
                 = (db1\<lparr>pq_entries := butlast (pq_entries db1)\<rparr>,
                    Returns (quest (last (pq_entries db1))))
            \<and> (\<forall>e \<in> set (pq_entries db1). pq_priority (last (pq_entries db1)) \<le> pq_priority e))
     \<and> (pq_entries db = [] \<and> priority q1 = 1 \<and> priority q5 = 5 \<and> priority q3 = 3 \<longrightarrow>
          (\<exists>db1 db2 db3. add_quest srt sys1 db q1 = (db1, Returns ())
             \<and> add_quest srt sys2 db1 q5 = (db2, Returns ())
             \<and> add_quest srt sys3 db2 q3 = (db3, Returns ())
             \<and> snd (get_next_quest db3) = Returns q1))
     \<and> (sorted_wrt (\<lambda>a b. pq_priority a \<ge> pq_priority b) (pq_entries db0)
          \<and> pq_entries db0 \<noteq> [] \<longrightarrow>
            get_next_quest db0 = (db0\<lparr>pq_entries := butlast (pq_entries db0)\<rparr>,
                                  Returns (quest (last (pq_entries db0))))
            \<and> (\<forall>e \<in> set (pq_entries db0). pq_priority (last (pq_entries db0)) \<le> pq_priority e)
            \<and> sorted_wrt (\<lambda>a b. pq_priority a \<ge> pq_priority b)
                 (pq_entries (fst (get_next_quest db0))))"
proof (intro conjI)
  from add_quest_result [OF c r, of sys q]
  obtain db1 where a: "add_quest srt sys db q = (db1, Returns ())"
    and s: "sorted_wrt (\<lambda>a b. \<not> higher_priority b a) (pq_entries db1)"
    and m: "mset (pq_entries db1) = mset (pq_entries db)
              + {#\<lparr>quest = q, pq_priority = priority q, timestamp = clock sys 0\<rparr>#}"
    by blast
  from m have ne: "pq_entries db1 \<noteq> []" by auto
  have "sorted_wrt (\<lambda>a b. pq_priority a \<ge> pq_priority b) (pq_entries db1)"
    using s by (simp add: higher_priority_def not_less)
  moreover have "\<forall>e \<in> set (pq_entries db1). pq_priority (last (pq_entries db1)) \<le> pq_priority e"
    using last_lowest [OF s] by blast
  ultimately show "\<exists>db1. add_quest srt sys db q = (db1, Returns ())
            \<and> sorted_wrt (\<lambda>a b. pq_priority a \<ge> pq_priority b) (pq_entries db1)
            \<and> mset (pq_entries db1) = mset (pq_entries db)
                 + {#\<lparr>quest = q, pq_priority = priority q, timestamp = clock sys 0\<rparr>#}
            \<and> get_next_quest db1
                 = (db1\<lparr>pq_entries := butlast (pq_entries db1)\<rparr>,
                    Returns (quest (last (pq_entries db1))))
            \<and> (\<forall>e \<in> set (pq_entries db1). pq_priority (last (pq_entries db1)) \<le> pq_priority e)"
    using a m ne by (auto simp: get_next_quest_def)
next
  show "pq_entries db = [] \<and> priority q1 = 1 \<and> priority q5 = 5 \<and> priority q3 = 3 \<longrightarrow>
          (\<exists>db1 db2 db3. add_quest srt sys1 db q1 = (db1, Returns ())
             \<and> add_quest srt sys2 db1 q5 = (db2, Returns ())
             \<and> add_quest srt sys3 db2 q3 = (db3, Returns ())
             \<and> snd (get_next_quest db3) = Returns q1)"
  proof
    assume h: "pq_entries db = [] \<and> priority q1 = 1 \<and> priority q5 = 5 \<and> priority q3 = 3"
    define e1 where "e1 = \<lparr>quest = q1, pq_priority = priority q1, timestamp = clock sys1 0\<rparr>"
    define e5 where "e5 = \<lparr>quest = q5, pq_priority = priority q5, timestamp = clock sys2 0\<rparr>"
    define e3 where "e3 = \<lparr>quest = q3, pq_priority = priority q3, timestamp = clock sys3 0\<rparr>"
    from add_quest_result [OF c r, of sys1 q1]
    obtain db1 where a1: "add_quest srt sys1 db q1 = (db1, Returns ())"
      and r1: "reachable (quest_btree db1)"
      and m1: "mset (pq_entries db1) = mset (pq_entries db) + {#e1#}"
      unfolding e1_def by blast
    from add_quest_result [OF c r1, of sys2 q5]
    obtain db2 where a2: "add_quest srt sys2 db1 q5 = (db2, Returns ())"
      and r2: "reachable (quest_btree db2)"
      and m2: "mset (pq_entries db2) = mset (pq_entries db1) + {#e5#}"
      unfolding e5_def by blast
    from add_quest_result [OF c r2, of sys3 q3]
    obtain db3 where a3: "add_quest srt sys3 db2 q3 = (db3, Returns ())"
      and s3: "sorted_wrt (\<lambda>a b. \<not> higher_priority b a) (pq_entries db3)"
      and m3: "mset (pq_entries db3) = mset (pq_entries db2) + {#e3#}"
      unfolding e3_def by blast
    from m1 m2 m3 h have m: "mset (pq_entries db3) = {#e1, e5, e3#}" by simp
    then have set3: "set (pq_entries db3) = {e1, e5, e3}"
      by (metis set_mset_mset set_mset_add_mset_insert set_mset_empty insert_commute)
    then have ne: "pq_entries db3 \<noteq> []" by auto
    then have "last (pq_entries db3) \<in> {e1, e5, e3}"
      using set3 last_in_set by blast
    moreover have "pq_priority (last (pq_entries db3)) \<le> pq_priority e1"
      using last_lowest [OF s3, of e1] set3 by simp
    ultimately have "last (pq_entries db3) = e1"
      using h by (auto simp: e1_def e5_def e3_def)
    then have "snd (get_next_quest db3) = Returns q1"
      using ne by (simp add: get_next_quest_def e1_def)
    with a1 a2 a3 show "\<exists>db1 db2 db3. add_quest srt sys1 db q1 = (db1, Returns ())
             \<and> add_quest srt sys2 db1 q5 = (db2, Returns ())
             \<and> add_quest srt sys3 db2 q3 = (db3, Returns ())
             \<and> snd (get_next_quest db3) = Returns q1"
      by blast
  qed
next
  show "sorted_wrt (\<lambda>a b. pq_priority a \<ge> pq_priority b) (pq_entries db0)
          \<and> pq_entries db0 \<noteq> [] \<longrightarrow>
            get_next_quest db0 = (db0\<lparr>pq_entries := butlast (pq_entries db0)\<rparr>,
                                  Returns (quest (last (pq_entries db0))))
            \<and> (\<forall>e \<in> set (pq_entries db0). pq_priority (last (pq_entries db0)) \<le> pq_priority e)
            \<and> sorted_wrt (\<lambda>a b. pq_priority a \<ge> pq_priority b)
                 (pq_entries (fst (get_next_quest db0)))"
    using get_next_quest_sorted [of db0] by blast
qed

lemma no_quests_db_tree:
  "insert_all [(''Q001'', quest (last (pq_entries seeded_db)))] CompleteBTree
     = Some (quest_btree no_quests_db)"
  unfolding no_quests_db_def seeded_db_def sys_at_def by code_simp

lemma no_quests_db_reachable: "reachable (quest_btree no_quests_db)"
  unfolding reachable_def using no_quests_db_tree by blast

lemma no_quests_db_empty: "pq_entries no_quests_db = []"
  unfolding no_quests_db_def seeded_db_def sys_at_def by code_simp

lemma seeded_db_snapshot:
  "sorted_wrt (\<lambda>a b. pq_priority a \<ge> pq_priority b) (pq_entries seeded_db)
   \<and> pq_entries seeded_db \<noteq> []"
  unfolding seeded_db_def sys_at_def by code_simp

theorem C6_lowest_priority_witness:
  "std_sort_contract higher_priority sort_descending
   \<and> reachable (quest_btree no_quests_db)
   \<and> pq_entries no_quests_db = []
   \<and> priority (quest_of ''QA'' 1) = 1 \<and> priority (quest_of ''QB'' 5) = 5
   \<and> priority (quest_of ''QC'' 3) = 3
   \<and> snd (get_next_quest
        (fst (add_quest sort_descending (sys_at 0)
          (fst (add_quest sort_descending (sys_at 0)
            (fst (add_quest sort_descending (sys_at 0) no_quests_db (quest_of ''QA'' 1)))
            (quest_of ''QB'' 5)))
          (quest_of ''QC'' 3))))
       = Returns (quest_of ''QA'' 1)
   \<and> sorted_wrt (\<lambda>a b. pq_priority a \<ge> pq_priority b) (pq_entries seeded_db)
   \<and> pq_entries seeded_db \<noteq> []
   \<and> snd (get_next_quest seeded_db) = Returns (quest (last (pq_entries seeded_db)))"
proof -
  have p: "priority (quest_of ''QA'' 1) = 1" "priority (quest_of ''QB'' 5) = 5"
    "priority (quest_of ''QC'' 3) = 3"
    by (simp_all add: quest_of_def)
  note inst = C6_lowest_priority_at_back [OF sort_descending_contract no_quests_db_reachable,
      of "sys_at 0" "quest_of ''QA'' 1" "quest_of ''QA'' 1" "quest_of ''QB'' 5" "quest_of ''QC'' 3"
         "sys_at 0" "sys_at 0" "sys_at 0" seeded_db]
  from inst no_quests_db_empty p
  obtain db1 db2 db3 where
    "add_quest sort_descending (sys_at 0) no_quests_db (quest_of ''QA'' 1) = (db1, Returns ())"
    "add_quest sort_descending (sys_at 0) db1 (quest_of ''QB'' 5) = (db2, Returns ())"
    "add_quest sort_descending (sys_at 0) db2 (quest_of ''QC'' 3) = (db3, Returns ())"
    "snd (get_next_quest db3) = Returns (quest_of ''QA'' 1)"
    by blast
  moreover from inst seeded_db_snapshot
  have "snd (get_next_quest seeded_db) = Returns (quest (last (pq_entries seeded_db)))"
    by simp
  ultimately show ?thesis
    using sort_descending_contract no_quests_db_reachable no_quests_db_empty p
      seeded_db_snapshot
    by simp
qed

section \<open>What \<open>get_next_quest\<close> leaves unchanged\<close>

text \<open>
  Claim C10. On an empty snapshot \<open>get_next_quest\<close> throws "No quests available" and the
  state in memory is the one before the call. On a snapshot that is not empty it returns the
  quest of the last entry and removes exactly that entry; the quest tree, the exercise, user
  and workout trees, the email index and the graph edge list (and the directory name) are as
  before.
\<close>

theorem C10_get_next_quest_frame:
  "(pq_entries db = [] \<longrightarrow> get_next_quest db = (db, Throws ''No quests available''))
   \<and> (pq_entries db \<noteq> [] \<longrightarrow>
        snd (get_next_quest db) = Returns (quest (last (pq_entries db)))
        \<and> pq_entries (fst (get_next_quest db)) = butlast (pq_entries db)
        \<and> quest_btree (fst (get_next_quest db)) = quest_btree db
        \<and> exercise_btree (fst (get_next_quest db)) = exercise_btree db
        \<and> user_btree (fst (get_next_quest db)) = user_btree db
        \<and> workout_btree (fst (get_next_quest db)) = workout_btree db
        \<and> email_index (fst (get_next_quest db)) = email_index db
        \<and> graph_edges (fst (get_next_quest db)) = graph_edges db
        \<and> data_dir (fst (get_next_quest db)) = data_dir db)"
  by (simp add: get_next_quest_def)

lemma seeded_db_entries: "length (pq_entries seeded_db) = 1"
  unfolding seeded_db_def sys_at_def by code_simp

theorem C10_get_next_quest_witness:
  "pq_entries no_quests_db = []
   \<and> get_next_quest no_quests_db = (no_quests_db, Throws ''No quests available'')
   \<and> pq_entries seeded_db \<noteq> []
   \<and> snd (get_next_quest seeded_db) = Returns (quest (last (pq_entries seeded_db)))
   \<and> pq_entries (fst (get_next_quest seeded_db)) = butlast (pq_entries seeded_db)
   \<and> quest_btree (fst (get_next_quest seeded_db)) = quest_btree seeded_db
   \<and> exercise_btree (fst (get_next_quest seeded_db)) = exercise_btree seeded_db
   \<and> user_btree (fst (get_next_quest seeded_db)) = user_btree seeded_db
   \<and> workout_btree (fst (get_next_quest seeded_db)) = workout_btree seeded_db
   \<and> email_index (fst (get_next_quest seeded_db)) = email_index seeded_db
   \<and> graph_edges (fst (get_next_quest seeded_db)) = graph_edges seeded_db"
proof -
  have "pq_entries seeded_db \<noteq> []"
    using seeded_db_entries by auto
  then show ?thesis
    using C10_get_next_quest_frame [of no_quests_db] C10_get_next_quest_frame [of seeded_db] no_quests_db_empty by simp
qed

section \<open>\<open>create_user\<close> when the generated id is the key of an internal node\<close>

text \<open>
  What \<open>create_user\<close> does on a user tree that inserts have built: it throws exactly when
  the email index holds the email, and then changes nothing; otherwise it inserts the new
  record under the generated id, appends the index entry and returns the id. When the
  generated id is not yet a key of the user tree, \<open>get_user_by_email\<close> on the new email
  returns the new record.
\<close>

lemma create_user_outcome:
  assumes "reachable (user_btree db)"
  shows "(list_ex (\<lambda>entry. entry_key entry = mail) (email_index db) \<longrightarrow>
            create_user sys db uname mail password = (db, Throws ''Email already registered''))
     \<and> (\<not> list_ex (\<lambda>entry. entry_key entry = mail) (email_index db) \<longrightarrow>
          (\<exists>ut. insert_tree (user_btree db) (user_id (new_user sys uname mail password))
                   (new_user sys uname mail password) = Some ut
             \<and> create_user sys db uname mail password
                 = (db\<lparr>user_btree := ut,
                       email_index := email_index db
                         @ [\<lparr>entry_key = mail,
                             entry_value = user_id (new_user sys uname mail password)\<rparr>]\<rparr>,
                    Returns (user_id (new_user sys uname mail password)))))"
proof -
  from reachable_insert [OF assms, of "user_id (new_user sys uname mail password)"
      "new_user sys uname mail password"]
  obtain ut where "insert_tree (user_btree db) (user_id (new_user sys uname mail password))
                   (new_user sys uname mail password) = Some ut"
    by blast
  then show ?thesis by (simp add: create_user_def Let_def)
qed

lemma find_after:
  "find P xs = None \<Longrightarrow> find P (xs @ ys) = find P ys"
  by (induction xs) (auto split: if_splits)

lemma create_user_fresh_id:
  assumes r: "reachable (user_btree db)"
    and new: "\<not> list_ex (\<lambda>entry. entry_key entry = mail) (email_index db)"
    and fresh: "user_id (new_user sys uname mail password) \<notin> keys_of (user_btree db)"
  shows "\<exists>db1. create_user sys db uname mail password
                  = (db1, Returns (user_id (new_user sys uname mail password)))
      \<and> get_user_by_email db1 mail = Returns (new_user sys uname mail password)"
proof -
  let ?u = "new_user sys uname mail password"
  from insert_tree_fresh [OF reachable_tree_inv [OF r] fresh, of ?u]
  obtain ut where ut: "insert_tree (user_btree db) (user_id ?u) ?u = Some ut"
    "search ut (user_id ?u) = Some ?u"
    by blast
  have "find (\<lambda>entry. entry_key entry = mail) (email_index db) = None"
    using new by (simp add: find_None_iff list_ex_iff)
  then have "find (\<lambda>entry. entry_key entry = mail)
               (email_index db @ [\<lparr>entry_key = mail, entry_value = user_id ?u\<rparr>])
             = Some \<lparr>entry_key = mail, entry_value = user_id ?u\<rparr>"
    by (simp add: find_after)
  with ut new show ?thesis
    by (simp add: create_user_def Let_def get_user_by_email_def)
qed

text \<open>
  Claim C7, at a failing input. In the state after five users were created within one second
  with the \<open>rand()\<close> values 1 to 5, the id of the second user is the only key of the user
  tree's root. A sixth \<open>create_user\<close> in the same second whose \<open>rand()\<close> value is 10002
  generates that id again. The email is new, so the call returns the id and appends the index
  entry, but the tree insertion stores the new user as a second pair below the root (the
  defect of C1), and \<open>get_user_by_email\<close> on the new email returns the second user's record.
\<close>

theorem C7_new_user_not_retrievable:
  "snd (create_user (sys_at 10002) five_users_db ''u6'' ''u6@x.org'' ''pw'')
     = Returns ''USER_1700000000_2''
   \<and> map_outcome username
        (get_user_by_email
           (fst (create_user (sys_at 10002) five_users_db ''u6'' ''u6@x.org'' ''pw'')) ''u6@x.org'')
     = Returns ''u2''
   \<and> map_outcome email
        (get_user_by_email
           (fst (create_user (sys_at 10002) five_users_db ''u6'' ''u6@x.org'' ''pw'')) ''u6@x.org'')
     = Returns ''u2@x.org''"
  unfolding five_users_db_def seeded_db_def sys_at_def by code_simp

section \<open>Codec: implausible headers and round trips\<close>

lemma le_value_le_bytes: "le_value (le_bytes k n) = n mod 256 ^ k"
proof (induction k arbitrary: n)
  case 0
  then show ?case by simp
next
  case (Suc k)
  have "n mod 256 + 256 * (n div 256 mod 256 ^ k) = n mod (256 * 256 ^ k)"
    by (simp add: mod_mult2_eq)
  with Suc show ?case by simp
qed

lemma length_le_bytes: "length (le_bytes k n) = k"
  by (induction k arbitrary: n) auto

lemma length_size_t_bytes: "length (size_t_bytes w) = 8"
  by (simp add: size_t_bytes_def length_le_bytes)

lemma le_value_size_t_bytes: "(word_of_nat (le_value (size_t_bytes w)) :: size_t) = w"
proof -
  have "unat w < 2 ^ 64"
    using unsigned_less [of w, where 'a = nat] by simp
  then have "unat w mod 256 ^ 8 = unat w" by simp
  then show ?thesis by (simp add: size_t_bytes_def le_value_le_bytes)
qed

lemma read_size_t_header:
  "read_size_t (opened (size_t_bytes w @ rest)) = Some (w, opened rest)"
  by (simp add: read_size_t_def is_read_def opened_def length_size_t_bytes
        le_value_size_t_bytes)

lemma unat_length_word:
  assumes "n < 1000000"
  shows "unat (word_of_nat n :: size_t) = n"
proof -
  have "(1000000 :: nat) < 2 ^ 64" by simp
  with assms have "n < 2 ^ 64" by linarith
  then show ?thesis by (simp add: unat_of_nat)
qed

lemma word_length_less:
  "n < 1000000 \<Longrightarrow> (word_of_nat n :: size_t) < 1000000"
  by (simp add: word_less_nat_alt unat_length_word)

lemma word_length_pos:
  "0 < n \<Longrightarrow> n < 1000000 \<Longrightarrow> (word_of_nat n :: size_t) > 0"
  by (simp add: word_less_nat_alt unat_length_word)

lemma write_string_append: "write_string os str = os @ write_string [] str"
  by (simp add: write_string_def os_write_def Let_def)

lemma is_read_exact:
  "is_read (opened (bytes @ rest)) (length bytes) = (bytes, opened rest)"
  by (simp add: is_read_def opened_def)

lemma read_write_string:
  assumes "length s < 1000000"
  shows "read_string (opened (write_string [] s @ rest)) str = Some (opened rest, s)"
proof (cases "s = []")
  case True
  then show ?thesis
    by (simp add: write_string_def os_write_def read_string_def read_size_t_header)
next
  case False
  then have pos: "0 < length s" by simp
  have u: "unat (word_of_nat (length s) :: size_t) = length s"
    using assms by (rule unat_length_word)
  have lt: "(word_of_nat (length s) :: size_t) < 1000000"
    using assms by (rule word_length_less)
  have gt: "(word_of_nat (length s) :: size_t) > 0"
    using pos assms by (rule word_length_pos)
  have w: "write_string [] s @ rest = size_t_bytes (word_of_nat (length s)) @ (s @ rest)"
    using gt u by (simp add: write_string_def os_write_def Let_def)
  show ?thesis
    unfolding w read_string_def read_size_t_header
    using gt lt u by (simp add: is_read_exact resize_string_def)
qed

lemma foldl_write_string:
  "foldl write_string os vec = os @ concat (map (write_string []) vec)"
proof (induction vec arbitrary: os)
  case Nil
  then show ?case by simp
next
  case (Cons s vec)
  have a: "foldl write_string (write_string os s) vec
             = write_string os s @ concat (map (write_string []) vec)"
    by (rule Cons.IH)
  have b: "write_string os s = os @ write_string [] s"
    by (rule write_string_append)
  show ?case
    unfolding foldl_Cons a by (subst b) simp
qed

lemma read_strings_written:
  assumes "\<forall>s \<in> set vec. length s < 1000000" and "length old = length vec"
  shows "read_strings (opened (concat (map (write_string []) vec) @ rest)) old
           = Some (opened rest, vec)"
  using assms
proof (induction vec arbitrary: old)
  case Nil
  then show ?case by simp
next
  case (Cons s vec)
  then obtain o1 olds where old: "old = o1 # olds" and len: "length olds = length vec"
    by (cases old) auto
  have short: "length s < 1000000" using Cons.prems by simp
  have rest_ok: "read_strings (opened (concat (map (write_string []) vec) @ rest)) olds
                   = Some (opened rest, vec)"
    using Cons.IH [of olds] Cons.prems len by simp
  show ?case
    using read_write_string [OF short, of "concat (map (write_string []) vec) @ rest" o1] rest_ok
    by (simp add: old)
qed

lemma length_resize_vector: "length (resize_vector n vec) = n"
  by (simp add: resize_vector_def)

lemma read_write_vector_string:
  assumes "length vec < 10000" and "\<forall>s \<in> set vec. length s < 1000000"
  shows "read_vector_string (opened (write_vector_string [] vec @ rest)) old
           = Some (opened rest, vec)"
proof -
  have u: "unat (word_of_nat (length vec) :: size_t) = length vec"
    using assms(1) by (simp add: unat_length_word)
  have lt: "(word_of_nat (length vec) :: size_t) < 10000"
    using assms(1) u by (simp add: word_less_nat_alt)
  have w: "write_vector_string [] vec @ rest
             = size_t_bytes (word_of_nat (length vec)) @ (concat (map (write_string []) vec) @ rest)"
    by (simp add: write_vector_string_def os_write_def Let_def foldl_write_string)
  show ?thesis
    unfolding w read_vector_string_def read_size_t_header
    using lt u read_strings_written [OF assms(2), of "resize_vector (length vec) old" rest]
    by (simp add: length_resize_vector)
qed

text \<open>
  Claim C8. When the 8-byte header holds a length of at least 1,000,000, \<open>read_string\<close>
  returns normally with the string empty (whatever it held before), and when the header holds
  a count of at least 10,000, \<open>read_vector_string\<close> returns normally with the vector empty;
  in both cases only the header has been consumed and the stream has not failed.
\<close>

theorem C8_implausible_header_reads_empty:
  "(1000000 \<le> len \<longrightarrow>
      read_string (opened (size_t_bytes len @ rest)) str = Some (opened rest, []))
   \<and> (10000 \<le> cnt \<longrightarrow>
      read_vector_string (opened (size_t_bytes cnt @ rest1)) vec = Some (opened rest1, []))"
  by (auto simp add: read_string_def read_vector_string_def read_size_t_header)

theorem C8_implausible_header_witness:
  "(1000000 :: size_t) \<le> 1000000
   \<and> read_string (opened (size_t_bytes 1000000 @ ''abc'')) ''old'' = Some (opened ''abc'', [])
   \<and> (10000 :: size_t) \<le> 10001
   \<and> read_vector_string (opened (size_t_bytes 10001 @ ''abc'')) [''old'', ''er'']
       = Some (opened ''abc'', [])"
  using C8_implausible_header_reads_empty
          [of 1000000 "''abc''" "''old''" 10001 "''abc''" "[''old'', ''er'']"]
  by simp

text \<open>
  Claim C9. A string shorter than 1,000,000 bytes that \<open>write_string\<close> wrote is read back
  by \<open>read_string\<close> unchanged (the empty string included), whatever follows it in the file
  and whatever the destination held before; the same for a vector of fewer than 10,000 such
  strings under \<open>write_vector_string\<close> and \<open>read_vector_string\<close>. What follows in the file
  is left unread.
\<close>

theorem C9_codec_round_trip:
  "(length s < 1000000 \<longrightarrow>
      read_string (opened (write_string [] s @ rest)) str = Some (opened rest, s))
   \<and> (length vec < 10000 \<and> (\<forall>s \<in> set vec. length s < 1000000) \<longrightarrow>
      read_vector_string (opened (write_vector_string [] vec @ rest1)) old
        = Some (opened rest1, vec))"
  using read_write_string [of s rest str] read_write_vector_string [of vec rest1 old]
  by blast

theorem C9_codec_round_trip_witness:
  "length ''abc'' < 1000000
   \<and> read_string (opened (write_string [] ''abc'' @ ''xyz'')) ''old''
       = Some (opened ''xyz'', ''abc'')
   \<and> length [''ab'', [], ''c''] < 10000
   \<and> list_all (\<lambda>s. length s < 1000000) [''ab'', [], ''c'']
   \<and> read_vector_string (opened (write_vector_string [] [''ab'', [], ''c''] @ ''xyz'')) [''old'']
       = Some (opened ''xyz'', [''ab'', [], ''c''])"
  using C9_codec_round_trip
          [of "''abc''" "''xyz''" "''old''" "[''ab'', [], ''c'']" "''xyz''" "[''old'']"]
  by simp

end
